theory Spec2Isabelle
  imports Complex_Main "HOL-Library.Word" "HOL-Library.Signed_Division"
begin

section \<open>Go's image package: points, rectangles and RGBA images\<close>

text \<open>
  The renderers paint into an \<open>image.RGBA\<close>: a byte slice \<open>Pix\<close> holding four bytes per
  pixel, a \<open>Stride\<close> (bytes per row) and the rectangle \<open>Rect\<close> of valid coordinates.
  Go's \<open>int\<close> is modelled by \<open>int\<close>; where a result can leave the 64-bit range the
  wrap-around is written out with \<open>int64\<close>.
\<close>

definition int64 :: "int \<Rightarrow> int" where
  "int64 k = (k + 2 ^ 63) mod 2 ^ 64 - 2 ^ 63"

definition is_int64 :: "int \<Rightarrow> bool" where
  "is_int64 k \<longleftrightarrow> - (2 ^ 63) \<le> k \<and> k < 2 ^ 63"

record point =
  X :: int
  Y :: int

record rectangle =
  MinP :: point
  MaxP :: point

record RGBA =
  R :: "8 word"
  G :: "8 word"
  B :: "8 word"
  A :: "8 word"

record image_RGBA =
  Pix :: "8 word list"
  Stride :: int
  Rect :: rectangle

text \<open>\<open>image.Rect(x0, y0, x1, y1)\<close> orders its corners.\<close>

definition image_Rect :: "int \<Rightarrow> int \<Rightarrow> int \<Rightarrow> int \<Rightarrow> rectangle" where
  "image_Rect x0 y0 x1 y1 =
     \<lparr>MinP = \<lparr>X = min x0 x1, Y = min y0 y1\<rparr>, MaxP = \<lparr>X = max x0 x1, Y = max y0 y1\<rparr>\<rparr>"

definition Dx :: "rectangle \<Rightarrow> int" where
  "Dx r = X (MaxP r) - X (MinP r)"

definition Dy :: "rectangle \<Rightarrow> int" where
  "Dy r = Y (MaxP r) - Y (MinP r)"

text \<open>\<open>Point.In\<close>: the half-open test \<open>Min \<le> p < Max\<close> on both axes.\<close>

definition point_In :: "point \<Rightarrow> rectangle \<Rightarrow> bool" where
  "point_In p r \<longleftrightarrow>
     X (MinP r) \<le> X p \<and> X p < X (MaxP r) \<and> Y (MinP r) \<le> Y p \<and> Y p < Y (MaxP r)"

definition PixOffset :: "image_RGBA \<Rightarrow> int \<Rightarrow> int \<Rightarrow> int" where
  "PixOffset i x y = (y - Y (MinP (Rect i))) * Stride i + (x - X (MinP (Rect i))) * 4"

text \<open>\<open>image.NewRGBA(r)\<close>: a zeroed buffer of \<open>4 * Dx * Dy\<close> bytes.\<close>

definition NewRGBA :: "rectangle \<Rightarrow> image_RGBA" where
  "NewRGBA r = \<lparr>Pix = replicate (nat (4 * Dx r * Dy r)) 0, Stride = 4 * Dx r, Rect = r\<rparr>"

text \<open>The four bytes of a pixel, read and written at a byte offset of \<open>Pix\<close>.\<close>

definition pixel_at :: "8 word list \<Rightarrow> nat \<Rightarrow> RGBA" where
  "pixel_at px n = \<lparr>R = px ! n, G = px ! (n + 1), B = px ! (n + 2), A = px ! (n + 3)\<rparr>"

definition pixel_put :: "8 word list \<Rightarrow> nat \<Rightarrow> RGBA \<Rightarrow> 8 word list" where
  "pixel_put px n c = px[n := R c, n + 1 := G c, n + 2 := B c, n + 3 := A c]"

text \<open>\<open>RGBAAt\<close> reads a pixel (the zero colour outside \<open>Rect\<close>); \<open>Set\<close> ignores
  coordinates outside \<open>Rect\<close>.\<close>

definition RGBAAt :: "image_RGBA \<Rightarrow> int \<Rightarrow> int \<Rightarrow> RGBA" where
  "RGBAAt i x y =
     (if point_In \<lparr>X = x, Y = y\<rparr> (Rect i) then pixel_at (Pix i) (nat (PixOffset i x y))
      else \<lparr>R = 0, G = 0, B = 0, A = 0\<rparr>)"

definition image_Set :: "image_RGBA \<Rightarrow> int \<Rightarrow> int \<Rightarrow> RGBA \<Rightarrow> image_RGBA" where
  "image_Set i x y c =
     (if point_In \<lparr>X = x, Y = y\<rparr> (Rect i)
      then i\<lparr>Pix := pixel_put (Pix i) (nat (PixOffset i x y)) c\<rparr>
      else i)"

text \<open>The shape \<open>NewRGBA\<close> establishes and every write below keeps.\<close>

definition wf_image :: "image_RGBA \<Rightarrow> bool" where
  "wf_image i \<longleftrightarrow>
     0 \<le> Dx (Rect i) \<and> 0 \<le> Dy (Rect i) \<and> Stride i = 4 * Dx (Rect i) \<and>
     int (length (Pix i)) = 4 * Dx (Rect i) * Dy (Rect i)"

section \<open>Canvas primitives\<close>

definition bg :: "8 word" where "bg = 33"
definition grid :: "8 word" where "grid = 45"
definition opaque :: "8 word" where "opaque = 255"

text \<open>
  \<open>getRGBA\<close> returns a pointer. It either points at the four bytes of a pixel inside
  \<open>Pix\<close>, or at a freshly allocated zero pixel that nothing else can reach. On an image
  of the shape \<open>NewRGBA\<close> builds the offset of a point inside \<open>Rect\<close> lies inside \<open>Pix\<close>
  (\<open>wf_offset_bounds\<close> below), so the index expression \<open>i.Pix[o]\<close> does not panic.
\<close>

datatype pixref = PixPtr nat | NewPixel

definition getRGBA :: "image_RGBA \<Rightarrow> int \<Rightarrow> int \<Rightarrow> pixref" where
  "getRGBA i x y =
     (if point_In \<lparr>X = x, Y = y\<rparr> (Rect i) then PixPtr (nat (PixOffset i x y))
      else NewPixel)"

text \<open>Reading and writing through such a pointer.\<close>

definition load :: "image_RGBA \<Rightarrow> pixref \<Rightarrow> RGBA" where
  "load i p = (case p of PixPtr n \<Rightarrow> pixel_at (Pix i) n
                       | NewPixel \<Rightarrow> \<lparr>R = 0, G = 0, B = 0, A = 0\<rparr>)"

definition store :: "image_RGBA \<Rightarrow> pixref \<Rightarrow> RGBA \<Rightarrow> image_RGBA" where
  "store i p c = (case p of PixPtr n \<Rightarrow> i\<lparr>Pix := pixel_put (Pix i) n c\<rparr>
                          | NewPixel \<Rightarrow> i)"

text \<open>\<open>initializeVisualization\<close>: a new image with every pixel the opaque background.\<close>

definition draw_Uniform :: "image_RGBA \<Rightarrow> RGBA \<Rightarrow> image_RGBA" where
  "draw_Uniform i c =
     i\<lparr>Pix := concat (replicate (length (Pix i) div 4) [R c, G c, B c, A c])\<rparr>"

definition initializeVisualization :: "int \<Rightarrow> int \<Rightarrow> image_RGBA" where
  "initializeVisualization width height =
     draw_Uniform (NewRGBA (image_Rect 0 0 width height)) \<lparr>R = bg, G = bg, B = bg, A = opaque\<rparr>"

section \<open>float64 arithmetic\<close>

text \<open>
  A \<open>float64\<close> is a finite value, an infinity or NaN. Finite arithmetic is taken over
  the reals: rounding to 53 bits is not modelled, and the two zeros are one. The
  concrete evaluations below use values on which the machine operations are exact, or
  whose logarithm lies well inside the interval between two integers.
  The special cases of \<open>/\<close>, \<open>math.Min\<close>, \<open>math.Max\<close> and \<open>math.Log2\<close> follow the Go
  documentation.
\<close>

datatype f64 = Fin real | PInf | NInf | NaN

definition f64_of_int :: "int \<Rightarrow> f64" where
  "f64_of_int k = Fin (of_int k)"

fun f64_neg :: "f64 \<Rightarrow> f64" where
  "f64_neg (Fin a) = Fin (- a)"
| "f64_neg PInf = NInf"
| "f64_neg NInf = PInf"
| "f64_neg NaN = NaN"

fun f64_add :: "f64 \<Rightarrow> f64 \<Rightarrow> f64" where
  "f64_add (Fin a) (Fin b) = Fin (a + b)"
| "f64_add NaN _ = NaN"
| "f64_add _ NaN = NaN"
| "f64_add PInf NInf = NaN"
| "f64_add NInf PInf = NaN"
| "f64_add PInf _ = PInf"
| "f64_add _ PInf = PInf"
| "f64_add NInf _ = NInf"
| "f64_add _ NInf = NInf"

definition f64_sub :: "f64 \<Rightarrow> f64 \<Rightarrow> f64" where
  "f64_sub a b = f64_add a (f64_neg b)"

fun f64_mul :: "f64 \<Rightarrow> f64 \<Rightarrow> f64" where
  "f64_mul (Fin a) (Fin b) = Fin (a * b)"
| "f64_mul NaN _ = NaN"
| "f64_mul _ NaN = NaN"
| "f64_mul PInf (Fin b) = (if 0 < b then PInf else if b < 0 then NInf else NaN)"
| "f64_mul NInf (Fin b) = (if 0 < b then NInf else if b < 0 then PInf else NaN)"
| "f64_mul (Fin a) PInf = (if 0 < a then PInf else if a < 0 then NInf else NaN)"
| "f64_mul (Fin a) NInf = (if 0 < a then NInf else if a < 0 then PInf else NaN)"
| "f64_mul PInf PInf = PInf"
| "f64_mul NInf NInf = PInf"
| "f64_mul PInf NInf = NInf"
| "f64_mul NInf PInf = NInf"

fun f64_div :: "f64 \<Rightarrow> f64 \<Rightarrow> f64" where
  "f64_div (Fin a) (Fin b) =
     (if b = 0 then (if a = 0 then NaN else if 0 < a then PInf else NInf) else Fin (a / b))"
| "f64_div NaN _ = NaN"
| "f64_div _ NaN = NaN"
| "f64_div (Fin a) PInf = Fin 0"
| "f64_div (Fin a) NInf = Fin 0"
| "f64_div PInf (Fin b) = (if 0 \<le> b then PInf else NInf)"
| "f64_div NInf (Fin b) = (if 0 \<le> b then NInf else PInf)"
| "f64_div PInf _ = NaN"
| "f64_div NInf _ = NaN"

fun math_Min :: "f64 \<Rightarrow> f64 \<Rightarrow> f64" where
  "math_Min (Fin a) (Fin b) = Fin (min a b)"
| "math_Min NInf _ = NInf"
| "math_Min _ NInf = NInf"
| "math_Min NaN _ = NaN"
| "math_Min _ NaN = NaN"
| "math_Min PInf b = b"
| "math_Min a PInf = a"

fun math_Max :: "f64 \<Rightarrow> f64 \<Rightarrow> f64" where
  "math_Max (Fin a) (Fin b) = Fin (max a b)"
| "math_Max PInf _ = PInf"
| "math_Max _ PInf = PInf"
| "math_Max NaN _ = NaN"
| "math_Max _ NaN = NaN"
| "math_Max NInf b = b"
| "math_Max a NInf = a"

fun math_Log2 :: "f64 \<Rightarrow> f64" where
  "math_Log2 (Fin a) = (if 0 < a then Fin (log 2 a) else if a = 0 then NInf else NaN)"
| "math_Log2 PInf = PInf"
| "math_Log2 NInf = NaN"
| "math_Log2 NaN = NaN"

text \<open>
  Conversion to an integer type truncates towards zero. Where the truncated value does
  not fit, Go leaves the result to the implementation; the definitions take what the
  amd64 code of the gc compiler yields (the \<open>integer indefinite\<close> value of the
  conversion instruction, then the low bits). No theorem below depends on that choice.
\<close>

definition trunc :: "real \<Rightarrow> int" where
  "trunc r = (if 0 \<le> r then \<lfloor>r\<rfloor> else \<lceil>r\<rceil>)"

definition go_int :: "f64 \<Rightarrow> int" where
  "go_int v = (case v of Fin r \<Rightarrow> (if is_int64 (trunc r) then trunc r else - (2 ^ 63))
                       | _ \<Rightarrow> - (2 ^ 63))"

definition go_uint8 :: "f64 \<Rightarrow> 8 word" where
  "go_uint8 v = (case v of
       Fin r \<Rightarrow> (if - (2 ^ 31) \<le> trunc r \<and> trunc r < 2 ^ 31 then word_of_int (trunc r) else 0)
     | _ \<Rightarrow> 0)"

definition go_uint32 :: "f64 \<Rightarrow> 32 word" where
  "go_uint32 v = (case v of
       Fin r \<Rightarrow> (if is_int64 (trunc r) then word_of_int (trunc r) else 0)
     | _ \<Rightarrow> 0)"

section \<open>Events and colour blending\<close>

record EventDataPoint =
  Start :: "32 word"
  Run :: "32 word"
  Status :: "16 word"

text \<open>The expression \<open>uint8(math.Min(saturated, float64(c) + d))\<close> of both \<open>Record\<close>s.\<close>

definition blend :: "8 word \<Rightarrow> f64 \<Rightarrow> 8 word" where
  "blend c d = go_uint8 (math_Min (Fin 255) (f64_add (Fin (real (unat c))) d))"

text \<open>The success branch: red and green by a quarter of the increment, blue by all of it.\<close>

definition paint_success :: "image_RGBA \<Rightarrow> int \<Rightarrow> int \<Rightarrow> f64 \<Rightarrow> image_RGBA" where
  "paint_success i x y d =
     (let c = getRGBA i x y; px = load i c
      in store i c (px\<lparr>R := blend (R px) (f64_div d (Fin 4)),
                        G := blend (G px) (f64_div d (Fin 4)),
                        B := blend (B px) d\<rparr>))"

text \<open>The failure branch: red only.\<close>

definition paint_failure :: "image_RGBA \<Rightarrow> int \<Rightarrow> int \<Rightarrow> f64 \<Rightarrow> image_RGBA" where
  "paint_failure i x y d =
     (let c = getRGBA i x y; px = load i c in store i c (px\<lparr>R := blend (R px) d\<rparr>))"

text \<open>The linear time mapping \<open>int(float64(w) * (t - tA) / (t\<Omega> - tA))\<close>.\<close>

definition xpos :: "int \<Rightarrow> f64 \<Rightarrow> f64 \<Rightarrow> f64 \<Rightarrow> int" where
  "xpos width tA tOmega t =
     go_int (f64_div (f64_mul (f64_of_int width) (f64_sub t tA)) (f64_sub tOmega tA))"

section \<open>Grid lines\<close>

definition drawXGridLine :: "image_RGBA \<Rightarrow> int \<Rightarrow> image_RGBA" where
  "drawXGridLine vis x =
     fold (\<lambda>y i. image_Set i x y \<lparr>R = grid, G = grid, B = grid, A = opaque\<rparr>)
       [0 .. Y (MaxP (Rect vis)) - 1] vis"

definition drawYGridLine :: "image_RGBA \<Rightarrow> int \<Rightarrow> image_RGBA" where
  "drawYGridLine vis y =
     fold (\<lambda>x i. image_Set i x y \<lparr>R = grid, G = grid, B = grid, A = opaque\<rparr>)
       [0 .. X (MaxP (Rect vis)) - 1] vis"

section \<open>The scatter renderer\<close>

record scatter =
  scatter_w :: int
  scatter_h :: int
  scatter_vis :: image_RGBA
  scatter_tA :: f64
  scatter_tOmega :: f64
  scatter_yLog2 :: f64
  scatter_colors :: f64

definition scatter_x :: "scatter \<Rightarrow> EventDataPoint \<Rightarrow> int" where
  "scatter_x v e =
     xpos (scatter_w v) (scatter_tA v) (scatter_tOmega v) (f64_of_int (sint (Start e)))"

definition scatter_y :: "scatter \<Rightarrow> EventDataPoint \<Rightarrow> int" where
  "scatter_y v e =
     int64 (scatter_h v
            - go_int (f64_mul (scatter_yLog2 v) (math_Log2 (f64_of_int (sint (Run e))))))"

definition scatter_Record :: "scatter \<Rightarrow> EventDataPoint \<Rightarrow> scatter" where
  "scatter_Record v e =
     (let x = scatter_x v e; y = scatter_y v e;
          d = f64_div (Fin 255) (scatter_colors v)
      in if Status e = 0
         then v\<lparr>scatter_vis := paint_success (scatter_vis v) x y d\<rparr>
         else v\<lparr>scatter_vis := paint_failure (scatter_vis v) x y d\<rparr>)"

definition scatter_Render :: "scatter \<Rightarrow> image_RGBA" where
  "scatter_Render v = scatter_vis v"

text \<open>
  The two loops of \<open>drawGrid\<close>. Their counters are Go \<open>int\<close>s, so each update wraps at
  64 bits. A loop that does not return has the value \<open>None\<close>.
\<close>

partial_function (option) grid_xloop ::
  "int \<Rightarrow> int \<Rightarrow> int \<Rightarrow> image_RGBA \<Rightarrow> image_RGBA option" where
  "grid_xloop width step x vis =
     (if x < width then grid_xloop width step (int64 (x + step)) (drawXGridLine vis x)
      else Some vis)"

partial_function (option) scatter_yloop ::
  "int \<Rightarrow> int \<Rightarrow> image_RGBA \<Rightarrow> image_RGBA option" where
  "scatter_yloop step y vis =
     (if 0 < y then scatter_yloop step (int64 (y - step)) (drawYGridLine vis y)
      else Some vis)"

text \<open>The guarded first loop, \<open>if xGrid > 0 { for x := 0; x < v.w; x += v.w / xGrid ... }\<close>.\<close>

definition grid_xlines :: "int \<Rightarrow> int \<Rightarrow> image_RGBA \<Rightarrow> image_RGBA option" where
  "grid_xlines width xGrid vis =
     (if 0 < xGrid then grid_xloop width (width sdiv xGrid) 0 vis else Some vis)"

definition grid_ystep :: "int \<Rightarrow> f64 \<Rightarrow> int" where
  "grid_ystep height yLog2 = go_int (f64_div (f64_of_int height) yLog2)"

definition scatter_drawGrid :: "scatter \<Rightarrow> int \<Rightarrow> scatter option" where
  "scatter_drawGrid v xGrid =
     (case grid_xlines (scatter_w v) xGrid (scatter_vis v) of
        None \<Rightarrow> None
      | Some vis1 \<Rightarrow>
          (case scatter_yloop (grid_ystep (scatter_h v) (scatter_yLog2 v)) (scatter_h v) vis1 of
             None \<Rightarrow> None
           | Some vis2 \<Rightarrow> Some (v\<lparr>scatter_vis := drawYGridLine vis2 0\<rparr>)))"

definition NewScatter ::
  "int \<Rightarrow> int \<Rightarrow> int \<Rightarrow> int \<Rightarrow> f64 \<Rightarrow> int \<Rightarrow> int \<Rightarrow> scatter option" where
  "NewScatter width height minTime maxTime yLog2 colorSteps xGrid =
     scatter_drawGrid
       \<lparr>scatter_w = width, scatter_h = height,
        scatter_vis = initializeVisualization width height,
        scatter_tA = f64_of_int minTime, scatter_tOmega = f64_of_int maxTime,
        scatter_yLog2 = yLog2, scatter_colors = f64_of_int colorSteps\<rparr> xGrid"

section \<open>The sweep renderer\<close>

record sweep =
  sweep_w :: int
  sweep_h :: int
  sweep_vis :: image_RGBA
  sweep_tA :: f64
  sweep_tOmega :: f64
  sweep_yLog2 :: f64
  sweep_cDelta :: f64

text \<open>
  The inner loop \<open>for y' := y; y' > yMin; y'-- { y = y'; ... }\<close>, with the loop body as
  a parameter: \<open>Record\<close> runs it on the canvas, and the same loop collects the cells it
  visits.
\<close>

function walk :: "(int \<Rightarrow> 's \<Rightarrow> 's) \<Rightarrow> int \<Rightarrow> int \<Rightarrow> int \<times> 's \<Rightarrow> int \<times> 's" where
  "walk body yMin y' (y, s) =
     (if yMin < y' then walk body yMin (y' - 1) (y', body y' s) else (y, s))"
  by pat_completeness auto
termination
  by (relation "measure (\<lambda>(body, yMin, y', ys). nat (y' - yMin))") auto

declare walk.simps [simp del]

definition sweep_x :: "sweep \<Rightarrow> int \<Rightarrow> int" where
  "sweep_x v t = xpos (sweep_w v) (sweep_tA v) (sweep_tOmega v) (f64_of_int t)"

definition sweep_yMin :: "sweep \<Rightarrow> EventDataPoint \<Rightarrow> int \<Rightarrow> int" where
  "sweep_yMin v e t =
     int64 (sweep_h v sdiv 2
            - go_int (f64_mul (sweep_yLog2 v)
                (math_Log2 (math_Max (Fin 1)
                   (f64_sub (f64_of_int t) (f64_of_int (sint (Start e))))))))"

definition sweep_paint :: "sweep \<Rightarrow> EventDataPoint \<Rightarrow> int \<Rightarrow> int \<Rightarrow> image_RGBA \<Rightarrow> image_RGBA" where
  "sweep_paint v e x y i =
     (if Status e = 0 then paint_success i x y (sweep_cDelta v)
      else paint_failure i x (int64 (sweep_h v - y)) (sweep_cDelta v))"

text \<open>
  The outer loop runs \<open>t\<close> from \<open>float64(e.Start)\<close> to \<open>float64(e.Start + e.Run)\<close> in steps
  of one; both bounds are 32-bit integers (the sum wraps), so \<open>t\<close> takes exactly the
  integers between them.
\<close>

definition sweep_times :: "EventDataPoint \<Rightarrow> int list" where
  "sweep_times e = [sint (Start e) .. sint (Start e + Run e)]"

definition sweep_Record :: "sweep \<Rightarrow> EventDataPoint \<Rightarrow> sweep" where
  "sweep_Record v e =
     v\<lparr>sweep_vis := snd (fold
         (\<lambda>t (y, i). walk (sweep_paint v e (sweep_x v t)) (sweep_yMin v e t) y (y, i))
         (sweep_times e) (sweep_h v sdiv 2, sweep_vis v))\<rparr>"

text \<open>The cells \<open>(x, y)\<close> that one \<open>Record\<close> call visits, in order.\<close>

definition sweep_cells :: "sweep \<Rightarrow> EventDataPoint \<Rightarrow> (int \<times> int) list" where
  "sweep_cells v e =
     snd (fold
         (\<lambda>t (y, cs). walk (\<lambda>y' cs. cs @ [(sweep_x v t, y')]) (sweep_yMin v e t) y (y, cs))
         (sweep_times e) (sweep_h v sdiv 2, []))"

text \<open>
  The row handed to \<open>getRGBA\<close> when the loop variable is \<open>y\<close>: \<open>y\<close> itself for a success,
  the mirrored row \<open>v.h - y\<close> for a failure. The read-modify-write of the pixel follows.
\<close>

definition sweep_row :: "sweep \<Rightarrow> EventDataPoint \<Rightarrow> int \<Rightarrow> int" where
  "sweep_row v e y = (if Status e = 0 then y else int64 (sweep_h v - y))"

definition sweep_blend :: "sweep \<Rightarrow> EventDataPoint \<Rightarrow> int \<Rightarrow> int \<Rightarrow> image_RGBA \<Rightarrow> image_RGBA" where
  "sweep_blend v e x r i =
     (if Status e = 0 then paint_success i x r (sweep_cDelta v)
      else paint_failure i x r (sweep_cDelta v))"

text \<open>
  One pass of the outer loop, for the time \<open>t\<close> and from the row \<open>y\<close>: the row on which the
  inner loop leaves \<open>y\<close>, and the pixels it hands to \<open>getRGBA\<close>, in order. Then the passes of
  one \<open>Record\<close> call, one list of pixels for each time step.
\<close>

definition sweep_step :: "sweep \<Rightarrow> EventDataPoint \<Rightarrow> int \<Rightarrow> int \<Rightarrow> int \<times> (int \<times> int) list" where
  "sweep_step v e t y =
     walk (\<lambda>y' ps. ps @ [(sweep_x v t, sweep_row v e y')]) (sweep_yMin v e t) y (y, [])"

fun sweep_walks :: "sweep \<Rightarrow> EventDataPoint \<Rightarrow> int list \<Rightarrow> int \<Rightarrow> (int \<times> int) list list" where
  "sweep_walks v e [] y = []"
| "sweep_walks v e (t # ts) y =
     snd (sweep_step v e t y) # sweep_walks v e ts (fst (sweep_step v e t y))"

definition sweep_pixels :: "sweep \<Rightarrow> EventDataPoint \<Rightarrow> (int \<times> int) list list" where
  "sweep_pixels v e = sweep_walks v e (sweep_times e) (sweep_h v sdiv 2)"

definition sweep_Render :: "sweep \<Rightarrow> image_RGBA" where
  "sweep_Render v = sweep_vis v"

partial_function (option) sweep_yloop ::
  "int \<Rightarrow> int \<Rightarrow> int \<Rightarrow> image_RGBA \<Rightarrow> image_RGBA option" where
  "sweep_yloop height step y vis =
     (if y < height
      then sweep_yloop height step (int64 (y + step))
             (drawYGridLine (drawYGridLine vis y) (int64 (height - y)))
      else Some vis)"

definition sweep_drawGrid :: "sweep \<Rightarrow> int \<Rightarrow> sweep option" where
  "sweep_drawGrid v xGrid =
     (case grid_xlines (sweep_w v) xGrid (sweep_vis v) of
        None \<Rightarrow> None
      | Some vis1 \<Rightarrow>
          (case sweep_yloop (sweep_h v) (grid_ystep (sweep_h v) (sweep_yLog2 v))
                  (sweep_h v sdiv 2) vis1 of
             None \<Rightarrow> None
           | Some vis2 \<Rightarrow> Some (v\<lparr>sweep_vis := drawYGridLine vis2 0\<rparr>)))"

definition NewSweep ::
  "int \<Rightarrow> int \<Rightarrow> int \<Rightarrow> int \<Rightarrow> f64 \<Rightarrow> int \<Rightarrow> int \<Rightarrow> sweep option" where
  "NewSweep width height minTime maxTime yLog2 colorSteps xGrid =
     sweep_drawGrid
       \<lparr>sweep_w = width, sweep_h = height,
        sweep_vis = initializeVisualization width height,
        sweep_tA = f64_of_int minTime, sweep_tOmega = f64_of_int maxTime,
        sweep_yLog2 = yLog2,
        sweep_cDelta = f64_div (Fin 255) (f64_of_int colorSteps)\<rparr> xGrid"

section \<open>The wave renderer\<close>

record wave =
  wave_w :: int
  wave_h :: int
  wave_tA :: f64
  wave_tOmega :: f64
  wave_vis :: image_RGBA
  wave_x :: int
  wave_p :: "EventDataPoint list"
  wave_f :: "EventDataPoint list"

definition NewWave :: "int \<Rightarrow> int \<Rightarrow> int \<Rightarrow> int \<Rightarrow> wave" where
  "NewWave width height minTime maxTime =
     \<lparr>wave_w = width, wave_h = height, wave_tA = f64_of_int minTime,
      wave_tOmega = f64_of_int maxTime, wave_vis = initializeVisualization width height,
      wave_x = 0, wave_p = [], wave_f = []\<rparr>"

text \<open>A slice index outside the slice panics.\<close>

datatype go_panic = IndexOutOfRange

definition index :: "'a list \<Rightarrow> int \<Rightarrow> go_panic + 'a" where
  "index xs k = (if 0 \<le> k \<and> k < int (length xs) then Inr (xs ! nat k) else Inl IndexOutOfRange)"

fun foldE :: "('a \<Rightarrow> 's \<Rightarrow> go_panic + 's) \<Rightarrow> 'a list \<Rightarrow> 's \<Rightarrow> go_panic + 's" where
  "foldE f [] s = Inr s"
| "foldE f (a # as) s = (case f a s of Inl err \<Rightarrow> Inl err | Inr s' \<Rightarrow> foldE f as s')"

text \<open>
  The first half of \<open>Record\<close>: both active sets keep the events with
  \<open>p.Start + p.Run > e.Start\<close> (a signed comparison of 32-bit values, the sum wrapping),
  then \<open>e\<close> is appended to the set its status selects.
\<close>

definition wave_active :: "EventDataPoint \<Rightarrow> EventDataPoint \<Rightarrow> bool" where
  "wave_active e p \<longleftrightarrow> sint (Start e) < sint (Start p + Run p)"

definition wave_prune :: "wave \<Rightarrow> EventDataPoint \<Rightarrow> wave" where
  "wave_prune v e =
     v\<lparr>wave_p := filter (wave_active e) (wave_p v), wave_f := filter (wave_active e) (wave_f v)\<rparr>"

definition wave_insert :: "wave \<Rightarrow> EventDataPoint \<Rightarrow> wave" where
  "wave_insert v e =
     (if Status e = 0 then v\<lparr>wave_p := wave_p v @ [e]\<rparr> else v\<lparr>wave_f := wave_f v @ [e]\<rparr>)"

text \<open>The colours of an active event, from its progress.\<close>

definition wave_prog :: "EventDataPoint \<Rightarrow> EventDataPoint \<Rightarrow> f64" where
  "wave_prog e p =
     f64_div (f64_of_int (sint (Start e - Start p))) (f64_of_int (sint (Run p + 1)))"

definition wave_c16 :: "f64 \<Rightarrow> 32 word" where
  "wave_c16 prog =
     go_uint32 (math_Min (Fin 65535) (f64_add (Fin 8448) (f64_mul (Fin 65535) prog)))"

definition wave_c16q :: "f64 \<Rightarrow> 32 word" where
  "wave_c16q prog =
     go_uint32 (math_Min (Fin 65535)
        (f64_add (Fin 8448) (f64_div (f64_mul (Fin 65535) prog) (Fin 4))))"

text \<open>
  \<open>plot\<close> is not among the sources of the package that are at hand; the renderer takes
  it as a parameter.
\<close>

type_synonym plot_fn =
  "image_RGBA \<Rightarrow> int \<Rightarrow> int \<Rightarrow> 32 word \<Rightarrow> 32 word \<Rightarrow> 32 word \<Rightarrow> image_RGBA"

definition wave_pass_step ::
  "plot_fn \<Rightarrow> wave \<Rightarrow> EventDataPoint \<Rightarrow> nat \<Rightarrow> int \<times> image_RGBA \<Rightarrow> go_panic + int \<times> image_RGBA"
  where
  "wave_pass_step plot v e k st =
     (case index (wave_p v) (int (length (wave_p v)) - int k - 1) of
        Inl err \<Rightarrow> Inl err
      | Inr p \<Rightarrow>
          (let prog = wave_prog e p; rg16 = wave_c16q prog; b16 = wave_c16 prog;
               yP = fst st
           in Inr (yP + 1, plot (snd st) (wave_x v) (wave_h v sdiv 2 - yP) rg16 rg16 b16)))"

definition wave_fail_step ::
  "plot_fn \<Rightarrow> wave \<Rightarrow> EventDataPoint \<Rightarrow> nat \<Rightarrow> int \<times> image_RGBA \<Rightarrow> go_panic + int \<times> image_RGBA"
  where
  "wave_fail_step plot v e k st =
     (case index (wave_f v) (int (length (wave_f v)) - int k - 1) of
        Inl err \<Rightarrow> Inl err
      | Inr f \<Rightarrow>
          (let prog = wave_prog e f; r16 = wave_c16 prog; gb16 = wave_c16q prog;
               yF = fst st
           in Inr (yF + 1, plot (snd st) (wave_x v) (wave_h v sdiv 2 + yF) r16 gb16 gb16)))"

text \<open>One pass of the body of \<open>for x' > v.x\<close>: advance the cursor, paint the column.\<close>

definition wave_column :: "plot_fn \<Rightarrow> wave \<Rightarrow> EventDataPoint \<Rightarrow> go_panic + wave" where
  "wave_column plot v e =
     (let v1 = v\<lparr>wave_x := wave_x v + 1\<rparr> in
      case foldE (wave_pass_step plot v1 e) [0 ..< length (wave_p v1)] (0, wave_vis v1) of
        Inl err \<Rightarrow> Inl err
      | Inr st1 \<Rightarrow>
          (case foldE (wave_fail_step plot v1 e) [0 ..< length (wave_f v1)] (0, snd st1) of
             Inl err \<Rightarrow> Inl err
           | Inr st2 \<Rightarrow> Inr (v1\<lparr>wave_vis := snd st2\<rparr>)))"

lemma wave_column_x: "wave_column plot v e = Inr v' \<Longrightarrow> wave_x v' = wave_x v + 1"
  by (auto simp: wave_column_def Let_def split: sum.splits)

function wave_draw :: "plot_fn \<Rightarrow> EventDataPoint \<Rightarrow> int \<Rightarrow> wave \<Rightarrow> go_panic + wave" where
  "wave_draw plot e x' v =
     (if wave_x v < x'
      then (case wave_column plot v e of Inl err \<Rightarrow> Inl err | Inr v' \<Rightarrow> wave_draw plot e x' v')
      else Inr v)"
  by pat_completeness auto
termination
  by (relation "measure (\<lambda>(plot, e, x', v). nat (x' - wave_x v))")
    (auto dest: wave_column_x)

declare wave_draw.simps [simp del]

definition wave_Record :: "plot_fn \<Rightarrow> wave \<Rightarrow> EventDataPoint \<Rightarrow> go_panic + wave" where
  "wave_Record plot v e =
     (let v1 = wave_insert (wave_prune v e) e;
          x' = xpos (wave_w v1) (wave_tA v1) (wave_tOmega v1) (f64_of_int (sint (Start e)))
      in wave_draw plot e x' v1)"

definition wave_Render :: "wave \<Rightarrow> image_RGBA" where
  "wave_Render v = wave_vis v"

section \<open>Command-line dispatch\<close>

record flags =
  flag_tA :: int
  flag_tOmega :: int
  flag_xGrid :: int
  flag_yLog2 :: f64
  flag_w :: int
  flag_h :: int
  flag_colorSteps :: int

definition generateScatterVisualization :: "flags \<Rightarrow> scatter option" where
  "generateScatterVisualization fl =
     NewScatter (flag_w fl) (flag_h fl) (flag_tOmega fl) (flag_tA fl) (flag_yLog2 fl)
       (flag_colorSteps fl) (flag_xGrid fl)"

definition generateSweepVisualization :: "flags \<Rightarrow> sweep option" where
  "generateSweepVisualization fl =
     NewSweep (flag_w fl) (flag_h fl) (flag_tA fl) (flag_tOmega fl) (flag_yLog2 fl)
       (flag_colorSteps fl) (flag_xGrid fl)"

definition generateWaveVisualization :: "flags \<Rightarrow> wave" where
  "generateWaveVisualization fl =
     NewWave (flag_w fl) (flag_h fl) (flag_tA fl) (flag_tOmega fl)"

section \<open>Error-reason classification\<close>

text \<open>
  A compiled regular expression is used through \<open>MatchString\<close> only, so a filter is the
  predicate it decides. The loop index is a Go \<open>int\<close>; the result is converted to
  \<open>int8\<close>, which keeps the low eight bits.
\<close>

type_synonym regexp = "string \<Rightarrow> bool"

function getErrorCode_from :: "nat \<Rightarrow> string \<Rightarrow> regexp list \<Rightarrow> 8 word" where
  "getErrorCode_from i errorReason errorFilters =
     (if i < length errorFilters
      then (if (errorFilters ! i) errorReason then word_of_nat (i + 1)
            else getErrorCode_from (i + 1) errorReason errorFilters)
      else word_of_nat (i + 1))"
  by pat_completeness auto
termination
  by (relation "measure (\<lambda>(i, r, fs). length fs - i)") auto

declare getErrorCode_from.simps [simp del]

definition getErrorCode :: "string \<Rightarrow> regexp list \<Rightarrow> 8 word" where
  "getErrorCode errorReason errorFilters = getErrorCode_from 0 errorReason errorFilters"

text \<open>
  The implicit first filter \<open>^\s*$\<close>: every character of the text is one of tab, line
  feed, form feed, carriage return and space.
\<close>

definition blank_filter :: regexp where
  "blank_filter s = list_all (\<lambda>c. c \<in> set [CHR 0x09, CHR 0x0A, CHR 0x0C, CHR 0x0D, CHR 0x20]) s"

text \<open>The filter list \<open>ConvertCSVToBinary\<close> builds from the rows of the configuration.\<close>

definition errorFilters_of :: "regexp list \<Rightarrow> regexp list" where
  "errorFilters_of conf = blank_filter # conf"

section \<open>Predicates of the statements\<close>

text \<open>A canvas of the shape \<open>NewRGBA\<close> builds, over the rectangle \<open>r\<close>.\<close>

definition canvas_ok :: "rectangle \<Rightarrow> image_RGBA \<Rightarrow> bool" where
  "canvas_ok r i \<longleftrightarrow> wf_image i \<and> Rect i = r"

text \<open>A colour increment that is not negative: a finite value from 0 on, or \<open>+Inf\<close>.\<close>

definition f64_nonneg :: "f64 \<Rightarrow> bool" where
  "f64_nonneg d = (case d of Fin r \<Rightarrow> 0 \<le> r | PInf \<Rightarrow> True | NInf \<Rightarrow> False | NaN \<Rightarrow> False)"

text \<open>No colour channel of \<open>c'\<close> is below that of \<open>c\<close> (as unsigned bytes); alpha is the same.\<close>

definition channels_le :: "RGBA \<Rightarrow> RGBA \<Rightarrow> bool" where
  "channels_le c c' \<longleftrightarrow> R c \<le> R c' \<and> G c \<le> G c' \<and> B c \<le> B c' \<and> A c = A c'"

definition canvas_le :: "image_RGBA \<Rightarrow> image_RGBA \<Rightarrow> bool" where
  "canvas_le i j \<longleftrightarrow> (\<forall>x y. channels_le (RGBAAt i x y) (RGBAAt j x y))"

text \<open>A renderer whose canvas is of that shape and whose colour increment is not negative.\<close>

definition sweep_ok :: "rectangle \<Rightarrow> sweep \<Rightarrow> bool" where
  "sweep_ok rc v \<longleftrightarrow> canvas_ok rc (sweep_vis v) \<and> f64_nonneg (sweep_cDelta v)"

definition scatter_ok :: "rectangle \<Rightarrow> scatter \<Rightarrow> bool" where
  "scatter_ok rc v \<longleftrightarrow>
     canvas_ok rc (scatter_vis v) \<and> f64_nonneg (f64_div (Fin 255) (scatter_colors v))"

text \<open>Two rows painted one after the other on an arc: the same row again, or the next one up.\<close>

definition arc_step :: "int \<Rightarrow> int \<Rightarrow> bool" where
  "arc_step a b \<longleftrightarrow> b = a \<or> b = a - 1"

text \<open>
  The state of the outer loop of \<open>sweep.Record\<close> (current row, cells visited so far) on an
  arc that began at row \<open>y0\<close>.
\<close>

definition arc_inv :: "int \<Rightarrow> int \<times> (int \<times> int) list \<Rightarrow> bool" where
  "arc_inv y0 st \<longleftrightarrow>
     successively arc_step (map snd (snd st)) \<and>
     (if snd st = [] then fst st = y0
      else snd (hd (snd st)) = y0 \<and> snd (last (snd st)) = fst st)"

text \<open>
  The end time of an event as a number, and the events whose end time the 32-bit sum
  \<open>Start + Run\<close> holds.
\<close>

definition end_time :: "EventDataPoint \<Rightarrow> int" where
  "end_time p = sint (Start p) + sint (Run p)"

definition end_fits :: "EventDataPoint \<Rightarrow> bool" where
  "end_fits p \<longleftrightarrow> - (2 ^ 31) \<le> end_time p \<and> end_time p < 2 ^ 31"

text \<open>
  The row next to \<open>r\<close> away from the centre line: one up for a success, one down for a
  failure (the mirrored row is a 64-bit difference).
\<close>

definition row_beyond :: "EventDataPoint \<Rightarrow> int \<Rightarrow> int" where
  "row_beyond e r = (if Status e = 0 then r - 1 else int64 (r + 1))"

text \<open>The time steps of one \<open>Record\<close> call that paint at all, each with its pixels.\<close>

definition sweep_painting :: "sweep \<Rightarrow> EventDataPoint \<Rightarrow> (int \<times> int) list list" where
  "sweep_painting v e = filter (\<lambda>w. w \<noteq> []) (sweep_pixels v e)"

section \<open>Properties of the pixel accessor\<close>

lemma wf_offset_bounds:
  assumes "wf_image i" and "point_In \<lparr>X = x, Y = y\<rparr> (Rect i)"
  shows "0 \<le> PixOffset i x y" and "PixOffset i x y + 4 \<le> int (length (Pix i))"
proof -
  define dx dy w h where "dx = x - X (MinP (Rect i))" and "dy = y - Y (MinP (Rect i))"
    and "w = Dx (Rect i)" and "h = Dy (Rect i)"
  define p q where "p = dy * w" and "q = h * w"
  have dx: "0 \<le> dx" "dx + 1 \<le> w" and dy: "0 \<le> dy" "dy + 1 \<le> h"
    using assms(2) by (auto simp: point_In_def Dx_def Dy_def dx_def dy_def w_def h_def)
  have off: "PixOffset i x y = 4 * p + 4 * dx"
    using assms(1) by (simp add: PixOffset_def wf_image_def dx_def dy_def w_def p_def)
  have len: "int (length (Pix i)) = 4 * q"
    using assms(1) by (simp add: wf_image_def w_def h_def q_def mult.commute)
  have w0: "0 \<le> w" using dx by linarith
  have p0: "0 \<le> p" using dy(1) w0 by (simp add: p_def)
  show "0 \<le> PixOffset i x y" using off dx(1) p0 by linarith
  have "(dy + 1) * w \<le> h * w" using dy(2) w0 by (rule mult_right_mono)
  then have "p + w \<le> q" by (simp add: p_def q_def algebra_simps)
  then show "PixOffset i x y + 4 \<le> int (length (Pix i))" using off len dx(2) by linarith
qed

lemma wf_offset_inj:
  assumes "wf_image i" and "point_In \<lparr>X = x, Y = y\<rparr> (Rect i)"
    and "point_In \<lparr>X = x', Y = y'\<rparr> (Rect i)" and "(x', y') \<noteq> (x, y)"
  shows "PixOffset i x' y' + 4 \<le> PixOffset i x y \<or> PixOffset i x y + 4 \<le> PixOffset i x' y'"
proof -
  define mx my w where "mx = X (MinP (Rect i))" and "my = Y (MinP (Rect i))"
    and "w = Dx (Rect i)"
  define p p' d d' where "p = (y - my) * w" and "p' = (y' - my) * w"
    and "d = x - mx" and "d' = x' - mx"
  have b: "0 \<le> d" "d < w" "0 \<le> d'" "d' < w"
    using assms(2,3) by (auto simp: point_In_def Dx_def mx_def w_def d_def d'_def)
  have off: "PixOffset i x y = 4 * p + 4 * d" "PixOffset i x' y' = 4 * p' + 4 * d'"
    using assms(1)
    by (simp_all add: PixOffset_def wf_image_def mx_def my_def w_def p_def p'_def d_def d'_def)
  consider "y' < y" | "y < y'" | "y' = y" "x' < x" | "y' = y" "x < x'"
    using assms(4) by force
  then show ?thesis
  proof cases
    case 1
    have "(y' - my + 1) * w \<le> (y - my) * w"
      by (rule mult_right_mono) (use 1 b in linarith)+
    then have "p' + w \<le> p" by (simp add: p_def p'_def algebra_simps)
    then show ?thesis using off b by linarith
  next
    case 2
    have "(y - my + 1) * w \<le> (y' - my) * w"
      by (rule mult_right_mono) (use 2 b in linarith)+
    then have "p + w \<le> p'" by (simp add: p_def p'_def algebra_simps)
    then show ?thesis using off b by linarith
  next
    case 3
    then have "p' = p" "d' < d" by (simp_all add: p_def p'_def d_def d'_def)
    then show ?thesis using off by linarith
  next
    case 4
    then have "p' = p" "d < d'" by (simp_all add: p_def p'_def d_def d'_def)
    then show ?thesis using off by linarith
  qed
qed

lemma pixel_at_put_same:
  "n + 4 \<le> length px \<Longrightarrow> pixel_at (pixel_put px n c) n = c"
  by (simp add: pixel_at_def pixel_put_def)

lemma pixel_at_put_other:
  "m + 4 \<le> n \<or> n + 4 \<le> m \<Longrightarrow> pixel_at (pixel_put px n c) m = pixel_at px m"
  by (auto simp: pixel_at_def pixel_put_def)

lemma length_pixel_put [simp]: "length (pixel_put px n c) = length px"
  by (simp add: pixel_put_def)

lemma RGBAAt_store_same:
  assumes "wf_image i" and "point_In \<lparr>X = x, Y = y\<rparr> (Rect i)"
  shows "RGBAAt (store i (getRGBA i x y) c) x y = c"
proof -
  have "nat (PixOffset i x y) + 4 \<le> length (Pix i)"
    using wf_offset_bounds [OF assms] by linarith
  then show ?thesis
    using assms(2) by (simp add: RGBAAt_def store_def getRGBA_def PixOffset_def pixel_at_put_same)
qed

lemma RGBAAt_store_other:
  assumes "wf_image i" and "(x', y') \<noteq> (x, y)"
  shows "RGBAAt (store i (getRGBA i x y) c) x' y' = RGBAAt i x' y'"
proof (cases "point_In \<lparr>X = x, Y = y\<rparr> (Rect i) \<and> point_In \<lparr>X = x', Y = y'\<rparr> (Rect i)")
  case True
  then have inb: "point_In \<lparr>X = x, Y = y\<rparr> (Rect i)" "point_In \<lparr>X = x', Y = y'\<rparr> (Rect i)"
    by simp_all
  have "nat (PixOffset i x' y') + 4 \<le> nat (PixOffset i x y)
        \<or> nat (PixOffset i x y) + 4 \<le> nat (PixOffset i x' y')"
    using wf_offset_inj [OF assms(1) inb assms(2)]
      wf_offset_bounds(1) [OF assms(1) inb(1)] wf_offset_bounds(1) [OF assms(1) inb(2)]
    by linarith
  then have "pixel_at (pixel_put (Pix i) (nat (PixOffset i x y)) c) (nat (PixOffset i x' y'))
             = pixel_at (Pix i) (nat (PixOffset i x' y'))"
    by (rule pixel_at_put_other)
  then show ?thesis
    using inb by (simp add: RGBAAt_def store_def getRGBA_def PixOffset_def)
next
  case False
  then show ?thesis
    by (auto simp: RGBAAt_def store_def getRGBA_def PixOffset_def)
qed

lemma wf_initializeVisualization: "wf_image (initializeVisualization width height)"
proof -
  define r where "r = image_Rect 0 0 width height"
  have d: "0 \<le> Dx r" "0 \<le> Dy r"
    by (simp_all add: r_def image_Rect_def Dx_def Dy_def)
  then have "0 \<le> Dx r * Dy r" by simp
  then have "nat (4 * Dx r * Dy r) = 4 * nat (Dx r * Dy r)"
    by (simp add: nat_mult_distrib mult.assoc)
  then have "int (length (Pix (draw_Uniform (NewRGBA r) c))) = 4 * Dx r * Dy r" for c
    using \<open>0 \<le> Dx r * Dy r\<close>
    by (simp add: draw_Uniform_def NewRGBA_def length_concat sum_list_replicate mult.assoc)
  then show ?thesis
    using d by (simp add: initializeVisualization_def wf_image_def r_def [symmetric])
      (simp add: draw_Uniform_def NewRGBA_def)
qed

lemma wf_store:
  "wf_image i \<Longrightarrow> wf_image (store i p c)"
  by (cases p) (simp_all add: store_def wf_image_def)

text \<open>
  C1. Inside the bounds \<open>getRGBA\<close> returns the pointer to the four bytes of pixel \<open>(x, y)\<close>:
  they lie inside \<open>Pix\<close>, reading through the pointer gives the pixel, and a write through
  it sets that pixel and no other. Outside the bounds, for any coordinates whatever, a
  write through the returned pointer leaves the canvas as it was.
\<close>

theorem getRGBA_bounds_safe:
  assumes "wf_image i"
  shows "(point_In \<lparr>X = x, Y = y\<rparr> (Rect i) \<longrightarrow>
            getRGBA i x y = PixPtr (nat (PixOffset i x y)) \<and>
            0 \<le> PixOffset i x y \<and> PixOffset i x y + 4 \<le> int (length (Pix i)) \<and>
            load i (getRGBA i x y) = RGBAAt i x y \<and>
            (\<forall>c. RGBAAt (store i (getRGBA i x y) c) x y = c) \<and>
            (\<forall>c x' y'. (x', y') \<noteq> (x, y) \<longrightarrow>
               RGBAAt (store i (getRGBA i x y) c) x' y' = RGBAAt i x' y'))
       \<and> (\<not> point_In \<lparr>X = x, Y = y\<rparr> (Rect i) \<longrightarrow>
            getRGBA i x y = NewPixel \<and> (\<forall>c. store i (getRGBA i x y) c = i))"
proof (intro conjI impI allI)
  assume inb: "point_In \<lparr>X = x, Y = y\<rparr> (Rect i)"
  show "getRGBA i x y = PixPtr (nat (PixOffset i x y))"
    using inb by (simp add: getRGBA_def)
  show "0 \<le> PixOffset i x y" "PixOffset i x y + 4 \<le> int (length (Pix i))"
    using wf_offset_bounds [OF assms inb] by simp_all
  show "load i (getRGBA i x y) = RGBAAt i x y"
    using inb by (simp add: getRGBA_def load_def RGBAAt_def)
  show "RGBAAt (store i (getRGBA i x y) c) x y = c" for c
    by (rule RGBAAt_store_same [OF assms inb])
  show "RGBAAt (store i (getRGBA i x y) c) x' y' = RGBAAt i x' y'"
    if "(x', y') \<noteq> (x, y)" for c x' y'
    by (rule RGBAAt_store_other [OF assms that])
next
  assume out: "\<not> point_In \<lparr>X = x, Y = y\<rparr> (Rect i)"
  show "getRGBA i x y = NewPixel" using out by (simp add: getRGBA_def)
  show "store i (getRGBA i x y) c = i" for c
    using out by (simp add: getRGBA_def store_def)
qed

theorem getRGBA_bounds_safe_witness:
  "wf_image (initializeVisualization 2 2) \<and>
   point_In \<lparr>X = 1, Y = 1\<rparr> (Rect (initializeVisualization 2 2)) \<and>
   getRGBA (initializeVisualization 2 2) 1 1 = PixPtr 12 \<and>
   load (initializeVisualization 2 2) (getRGBA (initializeVisualization 2 2) 1 1)
     = RGBAAt (initializeVisualization 2 2) 1 1 \<and>
   RGBAAt (store (initializeVisualization 2 2) (getRGBA (initializeVisualization 2 2) 1 1)
             \<lparr>R = 1, G = 2, B = 3, A = 255\<rparr>) 1 1 = \<lparr>R = 1, G = 2, B = 3, A = 255\<rparr> \<and>
   RGBAAt (store (initializeVisualization 2 2) (getRGBA (initializeVisualization 2 2) 1 1)
             \<lparr>R = 1, G = 2, B = 3, A = 255\<rparr>) 0 1 = RGBAAt (initializeVisualization 2 2) 0 1 \<and>
   \<not> point_In \<lparr>X = - 1, Y = 7\<rparr> (Rect (initializeVisualization 2 2)) \<and>
   getRGBA (initializeVisualization 2 2) (- 1) 7 = NewPixel \<and>
   store (initializeVisualization 2 2) (getRGBA (initializeVisualization 2 2) (- 1) 7)
     \<lparr>R = 1, G = 2, B = 3, A = 255\<rparr> = initializeVisualization 2 2"
proof -
  let ?i = "initializeVisualization 2 2"
  have wf: "wf_image ?i" by (rule wf_initializeVisualization)
  have inb: "point_In \<lparr>X = 1, Y = 1\<rparr> (Rect ?i)" by code_simp
  have out: "\<not> point_In \<lparr>X = - 1, Y = 7\<rparr> (Rect ?i)" by code_simp
  have off: "nat (PixOffset ?i 1 1) = 12" by code_simp
  have ne: "((0::int), (1::int)) \<noteq> (1, 1)" by simp
  note t1 = getRGBA_bounds_safe [OF wf, of 1 1, THEN conjunct1, rule_format, OF inb]
  note t2 = getRGBA_bounds_safe [OF wf, of "- 1" 7, THEN conjunct2, rule_format, OF out]
  have s1: "getRGBA ?i 1 1 = PixPtr 12" using t1 off by metis
  have s2: "load ?i (getRGBA ?i 1 1) = RGBAAt ?i 1 1" using t1 by blast
  have s3: "RGBAAt (store ?i (getRGBA ?i 1 1) \<lparr>R = 1, G = 2, B = 3, A = 255\<rparr>) 1 1
              = \<lparr>R = 1, G = 2, B = 3, A = 255\<rparr>" using t1 by blast
  have s4: "RGBAAt (store ?i (getRGBA ?i 1 1) \<lparr>R = 1, G = 2, B = 3, A = 255\<rparr>) 0 1
              = RGBAAt ?i 0 1" using t1 ne by blast
  have s5: "getRGBA ?i (- 1) 7 = NewPixel" using t2 by blast
  have s6: "store ?i (getRGBA ?i (- 1) 7) \<lparr>R = 1, G = 2, B = 3, A = 255\<rparr> = ?i"
    using t2 by blast
  show ?thesis using wf inb out s1 s2 s3 s4 s5 s6 by blast
qed

section \<open>Grid construction: invariants and termination\<close>

lemma int64_id: "is_int64 k \<Longrightarrow> int64 k = k"
  by (simp add: int64_def is_int64_def)

lemma is_int64_int64: "is_int64 (int64 k)"
proof -
  have "0 \<le> (k + 2 ^ 63) mod (2 ^ 64 :: int)" "(k + 2 ^ 63) mod (2 ^ 64 :: int) < 2 ^ 64"
    by simp_all
  moreover have "(2 :: int) ^ 64 = 2 * 2 ^ 63" by simp
  ultimately show ?thesis unfolding is_int64_def int64_def by linarith
qed

lemma canvas_ok_image_Set: "canvas_ok r i \<Longrightarrow> canvas_ok r (image_Set i x y c)"
  by (auto simp: canvas_ok_def image_Set_def wf_image_def)

lemma canvas_ok_fold_Set:
  "canvas_ok r i \<Longrightarrow> canvas_ok r (fold (\<lambda>k j. image_Set j (fx k) (fy k) c) ks i)"
  by (induction ks arbitrary: i) (simp_all add: canvas_ok_image_Set)

lemma canvas_ok_drawXGridLine: "canvas_ok r i \<Longrightarrow> canvas_ok r (drawXGridLine i x)"
  unfolding drawXGridLine_def by (rule canvas_ok_fold_Set [where fx = "\<lambda>k. x" and fy = "\<lambda>k. k"])

lemma canvas_ok_drawYGridLine: "canvas_ok r i \<Longrightarrow> canvas_ok r (drawYGridLine i y)"
  unfolding drawYGridLine_def by (rule canvas_ok_fold_Set [where fx = "\<lambda>k. k" and fy = "\<lambda>k. y"])

lemma canvas_ok_store: "canvas_ok r i \<Longrightarrow> canvas_ok r (store i p c)"
  by (cases p) (auto simp: canvas_ok_def store_def wf_image_def)

lemma canvas_ok_initializeVisualization:
  "canvas_ok (image_Rect 0 0 width height) (initializeVisualization width height)"
  using wf_initializeVisualization [of width height]
  by (simp add: canvas_ok_def initializeVisualization_def draw_Uniform_def NewRGBA_def)

subsection \<open>What a returning loop returns\<close>

lemma grid_xloop_ok:
  assumes "grid_xloop width step x vis = Some r"
  shows "canvas_ok rc vis \<longrightarrow> canvas_ok rc r"
proof -
  have "(case (((width, step), x), vis) of
          (a, vis) \<Rightarrow> (case a of (b, x) \<Rightarrow> (case b of (width, step) \<Rightarrow>
             \<lambda>x vis r. canvas_ok rc vis \<longrightarrow> canvas_ok rc r) x) vis) r"
  proof (rule grid_xloop.raw_induct
      [where P = "\<lambda>width step x vis r. canvas_ok rc vis \<longrightarrow> canvas_ok rc r"])
    show "(case (((width, step), x), vis) of
            (a, vis) \<Rightarrow> (case a of (b, x) \<Rightarrow>
               (case b of (width, step) \<Rightarrow> grid_xloop width step) x) vis) = Some r"
      using assms by simp
  next
    fix f :: "int \<Rightarrow> int \<Rightarrow> int \<Rightarrow> image_RGBA \<Rightarrow> image_RGBA option"
      and width step x vis r
    assume IH: "\<And>width step x vis r. f width step x vis = Some r
                  \<Longrightarrow> canvas_ok rc vis \<longrightarrow> canvas_ok rc r"
      and eq: "(if x < width then f width step (int64 (x + step)) (drawXGridLine vis x)
                else Some vis) = Some r"
    show "canvas_ok rc vis \<longrightarrow> canvas_ok rc r"
    proof (cases "x < width")
      case True
      then have "f width step (int64 (x + step)) (drawXGridLine vis x) = Some r"
        using eq by simp
      from IH [OF this] show ?thesis by (simp add: canvas_ok_drawXGridLine)
    next
      case False
      then show ?thesis using eq by simp
    qed
  qed
  then show ?thesis by simp
qed

lemma scatter_yloop_ok:
  assumes "scatter_yloop step y vis = Some r"
  shows "canvas_ok rc vis \<longrightarrow> canvas_ok rc r"
proof (rule scatter_yloop.raw_induct
    [where P = "\<lambda>step y vis r. canvas_ok rc vis \<longrightarrow> canvas_ok rc r", OF _ assms])
  fix f :: "int \<Rightarrow> int \<Rightarrow> image_RGBA \<Rightarrow> image_RGBA option" and step y vis r
  assume IH: "\<And>step y vis r. f step y vis = Some r
                \<Longrightarrow> canvas_ok rc vis \<longrightarrow> canvas_ok rc r"
    and eq: "(if 0 < y then f step (int64 (y - step)) (drawYGridLine vis y)
              else Some vis) = Some r"
  show "canvas_ok rc vis \<longrightarrow> canvas_ok rc r"
  proof (cases "0 < y")
    case True
    then have "f step (int64 (y - step)) (drawYGridLine vis y) = Some r"
      using eq by simp
    from IH [OF this] show ?thesis by (simp add: canvas_ok_drawYGridLine)
  next
    case False
    then show ?thesis using eq by simp
  qed
qed

lemma sweep_yloop_ok:
  assumes "sweep_yloop height step y vis = Some r"
  shows "canvas_ok rc vis \<longrightarrow> canvas_ok rc r"
proof (rule sweep_yloop.raw_induct
    [where P = "\<lambda>height step y vis r. canvas_ok rc vis \<longrightarrow> canvas_ok rc r", OF _ assms])
  fix f :: "int \<Rightarrow> int \<Rightarrow> int \<Rightarrow> image_RGBA \<Rightarrow> image_RGBA option"
    and height step y vis r
  assume IH: "\<And>height step y vis r. f height step y vis = Some r
                \<Longrightarrow> canvas_ok rc vis \<longrightarrow> canvas_ok rc r"
    and eq: "(if y < height
              then f height step (int64 (y + step))
                     (drawYGridLine (drawYGridLine vis y) (int64 (height - y)))
              else Some vis) = Some r"
  show "canvas_ok rc vis \<longrightarrow> canvas_ok rc r"
  proof (cases "y < height")
    case True
    then have "f height step (int64 (y + step))
                 (drawYGridLine (drawYGridLine vis y) (int64 (height - y))) = Some r"
      using eq by simp
    from IH [OF this] show ?thesis by (simp add: canvas_ok_drawYGridLine)
  next
    case False
    then show ?thesis using eq by simp
  qed
qed

subsection \<open>A loop with step 0 that is entered does not return\<close>

lemma grid_xloop_stuck_aux:
  assumes "grid_xloop width step x vis = Some r"
  shows "\<not> (step = 0 \<and> x < width \<and> is_int64 x)"
proof -
  have "(case (((width, step), x), vis) of
          (a, vis) \<Rightarrow> (case a of (b, x) \<Rightarrow> (case b of (width, step) \<Rightarrow>
             \<lambda>x vis r. \<not> (step = 0 \<and> x < width \<and> is_int64 x)) x) vis) r"
  proof (rule grid_xloop.raw_induct
      [where P = "\<lambda>width step x vis r. \<not> (step = 0 \<and> x < width \<and> is_int64 x)"])
    show "(case (((width, step), x), vis) of
            (a, vis) \<Rightarrow> (case a of (b, x) \<Rightarrow>
               (case b of (width, step) \<Rightarrow> grid_xloop width step) x) vis) = Some r"
      using assms by simp
  next
    fix f :: "int \<Rightarrow> int \<Rightarrow> int \<Rightarrow> image_RGBA \<Rightarrow> image_RGBA option"
      and width step x vis r
    assume IH: "\<And>width step x vis r. f width step x vis = Some r
                  \<Longrightarrow> \<not> (step = 0 \<and> x < width \<and> is_int64 x)"
      and eq: "(if x < width then f width step (int64 (x + step)) (drawXGridLine vis x)
                else Some vis) = Some r"
    show "\<not> (step = 0 \<and> x < width \<and> is_int64 x)"
    proof
      assume a: "step = 0 \<and> x < width \<and> is_int64 x"
      then have "f width 0 x (drawXGridLine vis x) = Some r"
        using eq by (simp add: int64_id)
      from IH [OF this] a show False by simp
    qed
  qed
  then show ?thesis by simp
qed

lemma grid_xloop_stuck:
  "x < width \<Longrightarrow> is_int64 x \<Longrightarrow> grid_xloop width 0 x vis = None"
  using grid_xloop_stuck_aux [of width 0 x vis] by (cases "grid_xloop width 0 x vis") auto

lemma scatter_yloop_stuck_aux:
  assumes "scatter_yloop step y vis = Some r"
  shows "\<not> (step = 0 \<and> 0 < y \<and> is_int64 y)"
proof (rule scatter_yloop.raw_induct
    [where P = "\<lambda>step y vis r. \<not> (step = 0 \<and> 0 < y \<and> is_int64 y)", OF _ assms])
  fix f :: "int \<Rightarrow> int \<Rightarrow> image_RGBA \<Rightarrow> image_RGBA option" and step y vis r
  assume IH: "\<And>step y vis r. f step y vis = Some r
                \<Longrightarrow> \<not> (step = 0 \<and> 0 < y \<and> is_int64 y)"
    and eq: "(if 0 < y then f step (int64 (y - step)) (drawYGridLine vis y)
              else Some vis) = Some r"
  show "\<not> (step = 0 \<and> 0 < y \<and> is_int64 y)"
  proof
    assume a: "step = 0 \<and> 0 < y \<and> is_int64 y"
    then have "f 0 y (drawYGridLine vis y) = Some r"
      using eq by (simp add: int64_id)
    from IH [OF this] a show False by simp
  qed
qed

lemma scatter_yloop_stuck:
  "0 < y \<Longrightarrow> is_int64 y \<Longrightarrow> scatter_yloop 0 y vis = None"
  using scatter_yloop_stuck_aux [of 0 y vis] by (cases "scatter_yloop 0 y vis") auto

lemma sweep_yloop_stuck_aux:
  assumes "sweep_yloop height step y vis = Some r"
  shows "\<not> (step = 0 \<and> y < height \<and> is_int64 y)"
proof (rule sweep_yloop.raw_induct
    [where P = "\<lambda>height step y vis r. \<not> (step = 0 \<and> y < height \<and> is_int64 y)",
      OF _ assms])
  fix f :: "int \<Rightarrow> int \<Rightarrow> int \<Rightarrow> image_RGBA \<Rightarrow> image_RGBA option"
    and height step y vis r
  assume IH: "\<And>height step y vis r. f height step y vis = Some r
                \<Longrightarrow> \<not> (step = 0 \<and> y < height \<and> is_int64 y)"
    and eq: "(if y < height
              then f height step (int64 (y + step))
                     (drawYGridLine (drawYGridLine vis y) (int64 (height - y)))
              else Some vis) = Some r"
  show "\<not> (step = 0 \<and> y < height \<and> is_int64 y)"
  proof
    assume a: "step = 0 \<and> y < height \<and> is_int64 y"
    then have "f height 0 y (drawYGridLine (drawYGridLine vis y) (int64 (height - y)))
               = Some r"
      using eq by (simp add: int64_id)
    from IH [OF this] a show False by simp
  qed
qed

lemma sweep_yloop_stuck:
  "y < height \<Longrightarrow> is_int64 y \<Longrightarrow> sweep_yloop height 0 y vis = None"
  using sweep_yloop_stuck_aux [of height 0 y vis]
  by (cases "sweep_yloop height 0 y vis") auto

subsection \<open>A loop with a positive step returns\<close>

lemma grid_xloop_returns:
  assumes "1 \<le> step" and "step \<le> 2 ^ 62" and "width \<le> 2 ^ 62" and "0 \<le> x"
  shows "\<exists>r. grid_xloop width step x vis = Some r"
  using assms(4)
proof (induction "nat (width - x)" arbitrary: x vis rule: less_induct)
  case less
  show ?case
  proof (cases "x < width")
    case True
    have in64: "is_int64 (x + step)"
      using True less.prems assms by (simp add: is_int64_def)
    have "\<exists>r. grid_xloop width step (x + step) (drawXGridLine vis x) = Some r"
      by (rule less.hyps) (use True less.prems assms in auto)
    then show ?thesis
      using True by (subst grid_xloop.simps) (simp add: int64_id [OF in64])
  next
    case False
    then show ?thesis by (subst grid_xloop.simps) simp
  qed
qed

lemma scatter_yloop_returns:
  assumes "1 \<le> step" and "step \<le> 2 ^ 62" and "y \<le> 2 ^ 62"
  shows "\<exists>r. scatter_yloop step y vis = Some r"
  using assms(3)
proof (induction "nat y" arbitrary: y vis rule: less_induct)
  case less
  show ?case
  proof (cases "0 < y")
    case True
    have in64: "is_int64 (y - step)"
      using True less.prems assms by (simp add: is_int64_def)
    have "\<exists>r. scatter_yloop step (y - step) (drawYGridLine vis y) = Some r"
      by (rule less.hyps) (use True less.prems assms in auto)
    then show ?thesis
      using True by (subst scatter_yloop.simps) (simp add: int64_id [OF in64])
  next
    case False
    then show ?thesis by (subst scatter_yloop.simps) simp
  qed
qed

lemma sweep_yloop_returns:
  assumes "1 \<le> step" and "step \<le> 2 ^ 62" and "height \<le> 2 ^ 62" and "- (2 ^ 62) \<le> y"
  shows "\<exists>r. sweep_yloop height step y vis = Some r"
  using assms(4)
proof (induction "nat (height - y)" arbitrary: y vis rule: less_induct)
  case less
  show ?case
  proof (cases "y < height")
    case True
    have in64: "is_int64 (y + step)"
      using True less.prems assms by (simp add: is_int64_def)
    have "\<exists>r. sweep_yloop height step (y + step)
                 (drawYGridLine (drawYGridLine vis y) (int64 (height - y))) = Some r"
      by (rule less.hyps) (use True less.prems assms in auto)
    then show ?thesis
      using True by (subst sweep_yloop.simps) (simp add: int64_id [OF in64])
  next
    case False
    then show ?thesis by (subst sweep_yloop.simps) simp
  qed
qed

lemma grid_xloop_not_entered: "\<not> x < width \<Longrightarrow> grid_xloop width step x vis = Some vis"
  by (subst grid_xloop.simps) simp

lemma scatter_yloop_not_entered: "\<not> 0 < y \<Longrightarrow> scatter_yloop step y vis = Some vis"
  by (subst scatter_yloop.simps) simp

lemma sweep_yloop_not_entered:
  "\<not> y < height \<Longrightarrow> sweep_yloop height step y vis = Some vis"
  by (subst sweep_yloop.simps) simp

subsection \<open>drawGrid and the constructors\<close>

lemma sdiv_pos: "0 < k \<Longrightarrow> 0 < l \<Longrightarrow> k sdiv l = k div (l :: int)"
  by (simp add: signed_divide_int_def)

lemma sdiv_2_bounds:
  "0 < h \<Longrightarrow> h sdiv 2 < (h :: int)" "0 < h \<Longrightarrow> 0 \<le> h sdiv (2 :: int)"
  "h \<le> 0 \<Longrightarrow> \<not> h sdiv 2 < (h :: int)"
  by (auto simp: signed_divide_int_def sgn_if)

lemma grid_ystep_zero:
  assumes "0 < height" and "real_of_int height < r"
  shows "grid_ystep height (Fin r) = 0"
proof -
  have q: "0 \<le> real_of_int height / r" "real_of_int height / r < 1"
    using assms by simp_all
  then have "\<lfloor>real_of_int height / r\<rfloor> = 0" by linarith
  then have "trunc (real_of_int height / r) = 0" using q by (simp add: trunc_def)
  moreover have "r \<noteq> 0" using assms by auto
  ultimately show ?thesis
    by (simp add: grid_ystep_def f64_of_int_def go_int_def is_int64_def)
qed

lemma grid_xlines_ok:
  "grid_xlines width xGrid vis = Some r \<Longrightarrow> canvas_ok rc vis \<longrightarrow> canvas_ok rc r"
  using grid_xloop_ok by (auto simp: grid_xlines_def split: if_splits)

lemma scatter_drawGrid_Some:
  assumes "scatter_drawGrid v xGrid = Some v'"
  obtains vis1 vis2 where "grid_xlines (scatter_w v) xGrid (scatter_vis v) = Some vis1"
    and "scatter_yloop (grid_ystep (scatter_h v) (scatter_yLog2 v)) (scatter_h v) vis1
         = Some vis2"
    and "v' = v\<lparr>scatter_vis := drawYGridLine vis2 0\<rparr>"
  using assms unfolding scatter_drawGrid_def by (auto split: option.splits)

lemma sweep_drawGrid_Some:
  assumes "sweep_drawGrid v xGrid = Some v'"
  obtains vis1 vis2 where "grid_xlines (sweep_w v) xGrid (sweep_vis v) = Some vis1"
    and "sweep_yloop (sweep_h v) (grid_ystep (sweep_h v) (sweep_yLog2 v))
           (sweep_h v sdiv 2) vis1 = Some vis2"
    and "v' = v\<lparr>sweep_vis := drawYGridLine vis2 0\<rparr>"
  using assms unfolding sweep_drawGrid_def by (auto split: option.splits)

lemma scatter_drawGrid_result:
  assumes "scatter_drawGrid v xGrid = Some v'"
  shows "\<exists>img. v' = v\<lparr>scatter_vis := img\<rparr> \<and>
           (canvas_ok rc (scatter_vis v) \<longrightarrow> canvas_ok rc img)"
proof -
  from assms obtain vis1 vis2 where
    x: "grid_xlines (scatter_w v) xGrid (scatter_vis v) = Some vis1"
    and y: "scatter_yloop (grid_ystep (scatter_h v) (scatter_yLog2 v)) (scatter_h v) vis1
            = Some vis2"
    and v': "v' = v\<lparr>scatter_vis := drawYGridLine vis2 0\<rparr>"
    by (rule scatter_drawGrid_Some)
  have "canvas_ok rc (scatter_vis v) \<longrightarrow> canvas_ok rc (drawYGridLine vis2 0)"
    using grid_xlines_ok [OF x] scatter_yloop_ok [OF y] canvas_ok_drawYGridLine by blast
  then show ?thesis using v' by blast
qed

lemma sweep_drawGrid_result:
  assumes "sweep_drawGrid v xGrid = Some v'"
  shows "\<exists>img. v' = v\<lparr>sweep_vis := img\<rparr> \<and>
           (canvas_ok rc (sweep_vis v) \<longrightarrow> canvas_ok rc img)"
proof -
  from assms obtain vis1 vis2 where
    x: "grid_xlines (sweep_w v) xGrid (sweep_vis v) = Some vis1"
    and y: "sweep_yloop (sweep_h v) (grid_ystep (sweep_h v) (sweep_yLog2 v))
              (sweep_h v sdiv 2) vis1 = Some vis2"
    and v': "v' = v\<lparr>sweep_vis := drawYGridLine vis2 0\<rparr>"
    by (rule sweep_drawGrid_Some)
  have "canvas_ok rc (sweep_vis v) \<longrightarrow> canvas_ok rc (drawYGridLine vis2 0)"
    using grid_xlines_ok [OF x] sweep_yloop_ok [OF y] canvas_ok_drawYGridLine by blast
  then show ?thesis using v' by blast
qed

lemma grid_x_part:
  assumes "0 < width" and "width \<le> 2 ^ 62"
  shows "grid_xlines width xGrid vis \<noteq> None \<longleftrightarrow> xGrid \<le> 0 \<or> 1 \<le> width sdiv xGrid"
proof (cases "0 < xGrid")
  case False
  then show ?thesis by (simp add: grid_xlines_def)
next
  case True
  have d: "width sdiv xGrid = width div xGrid" using assms True by (simp add: sdiv_pos)
  have d0: "0 \<le> width div xGrid" using assms True by (simp add: pos_imp_zdiv_nonneg_iff)
  have "width div xGrid \<le> width div 1"
    by (rule zdiv_mono2) (use assms True in auto)
  then have dw: "width div xGrid \<le> width" by simp
  show ?thesis
  proof (cases "1 \<le> width div xGrid")
    case True
    have "\<exists>r. grid_xloop width (width div xGrid) 0 vis = Some r"
      by (rule grid_xloop_returns) (use True dw assms in auto)
    then show ?thesis using True \<open>0 < xGrid\<close> d by (auto simp: grid_xlines_def)
  next
    case False
    then have z: "width div xGrid = 0" using d0 by linarith
    have "grid_xloop width 0 0 vis = None"
      by (rule grid_xloop_stuck) (use assms in \<open>auto simp: is_int64_def\<close>)
    then show ?thesis using z \<open>0 < xGrid\<close> d by (simp add: grid_xlines_def)
  qed
qed

lemma scatter_y_part:
  assumes "0 < height" and "height \<le> 2 ^ 62" and "0 \<le> s" and "s \<le> 2 ^ 62"
  shows "scatter_yloop s height vis \<noteq> None \<longleftrightarrow> 1 \<le> s"
proof (cases "1 \<le> s")
  case True
  then show ?thesis using scatter_yloop_returns [of s height vis] assms by auto
next
  case False
  then have "s = 0" using assms by linarith
  moreover have "scatter_yloop 0 height vis = None"
    by (rule scatter_yloop_stuck) (use assms in \<open>auto simp: is_int64_def\<close>)
  ultimately show ?thesis by simp
qed

lemma sweep_y_part:
  assumes "0 < height" and "height \<le> 2 ^ 62" and "0 \<le> s" and "s \<le> 2 ^ 62"
  shows "sweep_yloop height s (height sdiv 2) vis \<noteq> None \<longleftrightarrow> 1 \<le> s"
proof (cases "1 \<le> s")
  case True
  have "\<exists>r. sweep_yloop height s (height sdiv 2) vis = Some r"
    by (rule sweep_yloop_returns) (use True assms sdiv_2_bounds(2) [of height] in auto)
  then show ?thesis using True by auto
next
  case False
  then have "s = 0" using assms by linarith
  moreover have "sweep_yloop height 0 (height sdiv 2) vis = None"
    by (rule sweep_yloop_stuck)
      (use assms sdiv_2_bounds(1,2) [of height] in \<open>auto simp: is_int64_def\<close>)
  ultimately show ?thesis by simp
qed

lemma scatter_drawGrid_returns_iff:
  "scatter_drawGrid v xGrid \<noteq> None \<longleftrightarrow>
     (\<exists>vis1. grid_xlines (scatter_w v) xGrid (scatter_vis v) = Some vis1 \<and>
        scatter_yloop (grid_ystep (scatter_h v) (scatter_yLog2 v)) (scatter_h v) vis1 \<noteq> None)"
  unfolding scatter_drawGrid_def by (auto split: option.splits)

lemma sweep_drawGrid_returns_iff:
  "sweep_drawGrid v xGrid \<noteq> None \<longleftrightarrow>
     (\<exists>vis1. grid_xlines (sweep_w v) xGrid (sweep_vis v) = Some vis1 \<and>
        sweep_yloop (sweep_h v) (grid_ystep (sweep_h v) (sweep_yLog2 v))
          (sweep_h v sdiv 2) vis1 \<noteq> None)"
  unfolding sweep_drawGrid_def by (auto split: option.splits)

lemma scatter_drawGrid_iff:
  assumes "0 < scatter_w v" "scatter_w v \<le> 2 ^ 62" "0 < scatter_h v" "scatter_h v \<le> 2 ^ 62"
    and "0 \<le> grid_ystep (scatter_h v) (scatter_yLog2 v)"
    and "grid_ystep (scatter_h v) (scatter_yLog2 v) \<le> 2 ^ 62"
  shows "scatter_drawGrid v xGrid \<noteq> None \<longleftrightarrow>
           1 \<le> grid_ystep (scatter_h v) (scatter_yLog2 v) \<and>
           (xGrid \<le> 0 \<or> 1 \<le> scatter_w v sdiv xGrid)"
proof -
  have "scatter_drawGrid v xGrid \<noteq> None \<longleftrightarrow>
          (\<exists>vis1. grid_xlines (scatter_w v) xGrid (scatter_vis v) = Some vis1 \<and>
             1 \<le> grid_ystep (scatter_h v) (scatter_yLog2 v))"
    unfolding scatter_drawGrid_returns_iff scatter_y_part [OF assms(3-6)] ..
  also have "\<dots> \<longleftrightarrow> grid_xlines (scatter_w v) xGrid (scatter_vis v) \<noteq> None \<and>
                     1 \<le> grid_ystep (scatter_h v) (scatter_yLog2 v)"
    by auto
  finally show ?thesis unfolding grid_x_part [OF assms(1,2)] by blast
qed

lemma sweep_drawGrid_iff:
  assumes "0 < sweep_w v" "sweep_w v \<le> 2 ^ 62" "0 < sweep_h v" "sweep_h v \<le> 2 ^ 62"
    and "0 \<le> grid_ystep (sweep_h v) (sweep_yLog2 v)"
    and "grid_ystep (sweep_h v) (sweep_yLog2 v) \<le> 2 ^ 62"
  shows "sweep_drawGrid v xGrid \<noteq> None \<longleftrightarrow>
           1 \<le> grid_ystep (sweep_h v) (sweep_yLog2 v) \<and>
           (xGrid \<le> 0 \<or> 1 \<le> sweep_w v sdiv xGrid)"
proof -
  have "sweep_drawGrid v xGrid \<noteq> None \<longleftrightarrow>
          (\<exists>vis1. grid_xlines (sweep_w v) xGrid (sweep_vis v) = Some vis1 \<and>
             1 \<le> grid_ystep (sweep_h v) (sweep_yLog2 v))"
    unfolding sweep_drawGrid_returns_iff sweep_y_part [OF assms(3-6)] ..
  also have "\<dots> \<longleftrightarrow> grid_xlines (sweep_w v) xGrid (sweep_vis v) \<noteq> None \<and>
                     1 \<le> grid_ystep (sweep_h v) (sweep_yLog2 v)"
    by auto
  finally show ?thesis unfolding grid_x_part [OF assms(1,2)] by blast
qed

lemma NewScatter_returns_iff:
  assumes "0 < width" "width \<le> 2 ^ 62" "0 < height" "height \<le> 2 ^ 62"
    and "0 \<le> grid_ystep height yLog2" "grid_ystep height yLog2 \<le> 2 ^ 62"
  shows "NewScatter width height minTime maxTime yLog2 colorSteps xGrid \<noteq> None \<longleftrightarrow>
           1 \<le> grid_ystep height yLog2 \<and> (xGrid \<le> 0 \<or> 1 \<le> width sdiv xGrid)"
  unfolding NewScatter_def
  by (subst scatter_drawGrid_iff) (use assms in simp_all)

lemma NewSweep_returns_iff:
  assumes "0 < width" "width \<le> 2 ^ 62" "0 < height" "height \<le> 2 ^ 62"
    and "0 \<le> grid_ystep height yLog2" "grid_ystep height yLog2 \<le> 2 ^ 62"
  shows "NewSweep width height minTime maxTime yLog2 colorSteps xGrid \<noteq> None \<longleftrightarrow>
           1 \<le> grid_ystep height yLog2 \<and> (xGrid \<le> 0 \<or> 1 \<le> width sdiv xGrid)"
  unfolding NewSweep_def
  by (subst sweep_drawGrid_iff) (use assms in simp_all)

lemma scatter_drawGrid_ystep_zero:
  assumes "0 < scatter_h v" and "is_int64 (scatter_h v)"
    and "grid_ystep (scatter_h v) (scatter_yLog2 v) = 0"
  shows "scatter_drawGrid v xGrid = None"
proof -
  have "scatter_yloop 0 (scatter_h v) vis = None" for vis
    by (rule scatter_yloop_stuck) (use assms in auto)
  then show ?thesis using assms(3) scatter_drawGrid_returns_iff [of v xGrid] by auto
qed

lemma sweep_drawGrid_ystep_zero:
  assumes "0 < sweep_h v" and "is_int64 (sweep_h v)"
    and "grid_ystep (sweep_h v) (sweep_yLog2 v) = 0"
  shows "sweep_drawGrid v xGrid = None"
proof -
  have "is_int64 (sweep_h v sdiv 2)"
    using assms sdiv_2_bounds(1,2) [of "sweep_h v"] by (auto simp: is_int64_def)
  then have "sweep_yloop (sweep_h v) 0 (sweep_h v sdiv 2) vis = None" for vis
    by (intro sweep_yloop_stuck) (use assms sdiv_2_bounds(1) in auto)
  then show ?thesis using assms(3) sweep_drawGrid_returns_iff [of v xGrid] by auto
qed

lemma New_ystep_zero:
  assumes "0 < height" and "is_int64 height" and "grid_ystep height yLog2 = 0"
  shows "NewScatter width height minTime maxTime yLog2 colorSteps xGrid = None"
    and "NewSweep width height minTime maxTime yLog2 colorSteps xGrid = None"
proof -
  show "NewScatter width height minTime maxTime yLog2 colorSteps xGrid = None"
    unfolding NewScatter_def by (rule scatter_drawGrid_ystep_zero) (use assms in simp_all)
  show "NewSweep width height minTime maxTime yLog2 colorSteps xGrid = None"
    unfolding NewSweep_def by (rule sweep_drawGrid_ystep_zero) (use assms in simp_all)
qed

lemma grid_xlines_stuck:
  assumes "0 < width" and "width < xGrid"
  shows "grid_xlines width xGrid vis = None"
proof -
  have "width sdiv xGrid = 0" using assms by (simp add: sdiv_pos)
  moreover have "grid_xloop width 0 0 vis = None"
    by (rule grid_xloop_stuck) (use assms in \<open>auto simp: is_int64_def\<close>)
  ultimately show ?thesis using assms by (simp add: grid_xlines_def)
qed

lemma New_xstep_zero:
  assumes "0 < width" and "width < xGrid"
  shows "width sdiv xGrid = 0"
    and "NewScatter width height minTime maxTime yLog2 colorSteps xGrid = None"
    and "NewSweep width height minTime maxTime yLog2 colorSteps xGrid = None"
proof -
  show "width sdiv xGrid = 0" using assms by (simp add: sdiv_pos)
  show "NewScatter width height minTime maxTime yLog2 colorSteps xGrid = None"
    using grid_xlines_stuck [OF assms] scatter_drawGrid_returns_iff
    unfolding NewScatter_def by (metis option.distinct(1) scatter.select_convs(1))
  show "NewSweep width height minTime maxTime yLog2 colorSteps xGrid = None"
    using grid_xlines_stuck [OF assms] sweep_drawGrid_returns_iff
    unfolding NewSweep_def by (metis option.distinct(1) sweep.select_convs(1))
qed

lemma scatter_drawGrid_not_entered:
  assumes "scatter_h v \<le> 0" and "xGrid \<le> 0 \<or> scatter_w v \<le> 0"
  shows "scatter_drawGrid v xGrid \<noteq> None"
proof -
  have x: "grid_xlines (scatter_w v) xGrid (scatter_vis v) = Some (scatter_vis v)"
    using assms(2) by (auto simp: grid_xlines_def grid_xloop_not_entered)
  have y: "scatter_yloop s (scatter_h v) vis = Some vis" for s vis
    using assms(1) by (simp add: scatter_yloop_not_entered)
  show ?thesis unfolding scatter_drawGrid_returns_iff using x y by simp
qed

lemma sweep_drawGrid_not_entered:
  assumes "sweep_h v \<le> 0" and "xGrid \<le> 0 \<or> sweep_w v \<le> 0"
  shows "sweep_drawGrid v xGrid \<noteq> None"
proof -
  have x: "grid_xlines (sweep_w v) xGrid (sweep_vis v) = Some (sweep_vis v)"
    using assms(2) by (auto simp: grid_xlines_def grid_xloop_not_entered)
  have y: "sweep_yloop (sweep_h v) s (sweep_h v sdiv 2) vis = Some vis" for s vis
    using sdiv_2_bounds(3) [OF assms(1)] by (simp add: sweep_yloop_not_entered)
  show ?thesis unfolding sweep_drawGrid_returns_iff using x y by simp
qed

lemma New_not_entered:
  assumes "height \<le> 0" and "xGrid \<le> 0 \<or> width \<le> 0"
  shows "NewScatter width height minTime maxTime yLog2 colorSteps xGrid \<noteq> None"
    and "NewSweep width height minTime maxTime yLog2 colorSteps xGrid \<noteq> None"
proof -
  show "NewScatter width height minTime maxTime yLog2 colorSteps xGrid \<noteq> None"
    unfolding NewScatter_def by (rule scatter_drawGrid_not_entered) (use assms in simp_all)
  show "NewSweep width height minTime maxTime yLog2 colorSteps xGrid \<noteq> None"
    unfolding NewSweep_def by (rule sweep_drawGrid_not_entered) (use assms in simp_all)
qed

text \<open>
  C10, as the code has it. For a canvas of positive width and height (at most
  \<open>2 ^ 62\<close>) and a horizontal-gridline step \<open>int(float64(height) / yLog2)\<close> between 0 and
  \<open>2 ^ 62\<close>, \<open>NewScatter\<close> and \<open>NewSweep\<close> return exactly when that step is at least 1 and
  either \<open>xGrid \<le> 0\<close> or the vertical-gridline step \<open>width / xGrid\<close> is at least 1. When
  \<open>0 < height < yLog2\<close>, or \<open>0 < width < xGrid\<close>, the step is 0 and construction does not
  return. A loop that is never entered (\<open>height \<le> 0\<close>; \<open>width \<le> 0\<close> or \<open>xGrid \<le> 0\<close>)
  returns whatever its step.
\<close>

theorem drawGrid_termination:
  "(0 < width \<and> width \<le> 2 ^ 62 \<and> 0 < height \<and> height \<le> 2 ^ 62 \<and>
    0 \<le> grid_ystep height yLog2 \<and> grid_ystep height yLog2 \<le> 2 ^ 62 \<longrightarrow>
      (NewScatter width height minTime maxTime yLog2 colorSteps xGrid \<noteq> None \<longleftrightarrow>
         1 \<le> grid_ystep height yLog2 \<and> (xGrid \<le> 0 \<or> 1 \<le> width sdiv xGrid)) \<and>
      (NewSweep width height minTime maxTime yLog2 colorSteps xGrid \<noteq> None \<longleftrightarrow>
         1 \<le> grid_ystep height yLog2 \<and> (xGrid \<le> 0 \<or> 1 \<le> width sdiv xGrid)))
   \<and> (0 < height \<and> is_int64 height \<and> yLog2 = Fin r \<and> real_of_int height < r \<longrightarrow>
        grid_ystep height yLog2 = 0 \<and>
        NewScatter width height minTime maxTime yLog2 colorSteps xGrid = None \<and>
        NewSweep width height minTime maxTime yLog2 colorSteps xGrid = None)
   \<and> (0 < width \<and> width < xGrid \<longrightarrow>
        width sdiv xGrid = 0 \<and>
        NewScatter width height minTime maxTime yLog2 colorSteps xGrid = None \<and>
        NewSweep width height minTime maxTime yLog2 colorSteps xGrid = None)
   \<and> (height \<le> 0 \<and> (xGrid \<le> 0 \<or> width \<le> 0) \<longrightarrow>
        NewScatter width height minTime maxTime yLog2 colorSteps xGrid \<noteq> None \<and>
        NewSweep width height minTime maxTime yLog2 colorSteps xGrid \<noteq> None)"
proof (intro conjI impI)
  assume a: "0 < width \<and> width \<le> 2 ^ 62 \<and> 0 < height \<and> height \<le> 2 ^ 62 \<and>
             0 \<le> grid_ystep height yLog2 \<and> grid_ystep height yLog2 \<le> 2 ^ 62"
  show "NewScatter width height minTime maxTime yLog2 colorSteps xGrid \<noteq> None \<longleftrightarrow>
          1 \<le> grid_ystep height yLog2 \<and> (xGrid \<le> 0 \<or> 1 \<le> width sdiv xGrid)"
    by (rule NewScatter_returns_iff) (use a in auto)
  show "NewSweep width height minTime maxTime yLog2 colorSteps xGrid \<noteq> None \<longleftrightarrow>
          1 \<le> grid_ystep height yLog2 \<and> (xGrid \<le> 0 \<or> 1 \<le> width sdiv xGrid)"
    by (rule NewSweep_returns_iff) (use a in auto)
next
  assume a: "0 < height \<and> is_int64 height \<and> yLog2 = Fin r \<and> real_of_int height < r"
  then show z: "grid_ystep height yLog2 = 0" using grid_ystep_zero by simp
  show "NewScatter width height minTime maxTime yLog2 colorSteps xGrid = None"
    "NewSweep width height minTime maxTime yLog2 colorSteps xGrid = None"
    using New_ystep_zero [of height yLog2] a z by simp_all
next
  assume a: "0 < width \<and> width < xGrid"
  then show "width sdiv xGrid = 0"
    "NewScatter width height minTime maxTime yLog2 colorSteps xGrid = None"
    "NewSweep width height minTime maxTime yLog2 colorSteps xGrid = None"
    using New_xstep_zero [of width xGrid] by simp_all
next
  assume a: "height \<le> 0 \<and> (xGrid \<le> 0 \<or> width \<le> 0)"
  then show "NewScatter width height minTime maxTime yLog2 colorSteps xGrid \<noteq> None"
    "NewSweep width height minTime maxTime yLog2 colorSteps xGrid \<noteq> None"
    using New_not_entered [of height xGrid width] by simp_all
qed

lemma grid_ystep_128_16: "grid_ystep 128 (Fin 16) = 8"
  by (simp add: grid_ystep_def f64_of_int_def go_int_def trunc_def is_int64_def)

theorem drawGrid_termination_witness:
  "NewScatter 256 128 0 100 (Fin 16) 1 4 \<noteq> None \<and>
   NewSweep 256 128 0 100 (Fin 16) 1 4 \<noteq> None \<and>
   grid_ystep 128 (Fin 200) = 0 \<and>
   NewScatter 256 128 0 100 (Fin 200) 1 4 = None \<and>
   NewSweep 256 128 0 100 (Fin 200) 1 4 = None \<and>
   NewScatter 256 128 0 100 (Fin 16) 1 300 = None \<and>
   NewSweep 256 128 0 100 (Fin 16) 1 300 = None \<and>
   NewScatter 256 0 0 100 (Fin 16) 1 0 \<noteq> None \<and>
   NewSweep 256 0 0 100 (Fin 16) 1 0 \<noteq> None"
proof -
  have h1: "0 < (256::int) \<and> (256::int) \<le> 2 ^ 62 \<and> 0 < (128::int) \<and> (128::int) \<le> 2 ^ 62 \<and>
            0 \<le> grid_ystep 128 (Fin 16) \<and> grid_ystep 128 (Fin 16) \<le> 2 ^ 62"
    by (simp add: grid_ystep_128_16)
  have c1: "1 \<le> grid_ystep 128 (Fin 16) \<and> ((4::int) \<le> 0 \<or> 1 \<le> (256::int) sdiv 4)"
    by (simp add: grid_ystep_128_16)
  have h2: "0 < (128::int) \<and> is_int64 128 \<and> Fin 200 = Fin 200 \<and> real_of_int 128 < 200"
    by (simp add: is_int64_def)
  have h3: "0 < (256::int) \<and> (256::int) < 300" by simp
  have h4: "(0::int) \<le> 0 \<and> ((0::int) \<le> 0 \<or> (256::int) \<le> 0)" by simp
  note t1 = drawGrid_termination [of 256 128 "Fin 16" 0 100 1 4 200, THEN conjunct1]
  note t2 = drawGrid_termination [of 256 128 "Fin 200" 0 100 1 4 200,
      THEN conjunct2, THEN conjunct1]
  note t3 = drawGrid_termination [of 256 128 "Fin 16" 0 100 1 300 200,
      THEN conjunct2, THEN conjunct2, THEN conjunct1]
  note t4 = drawGrid_termination [of 256 0 "Fin 16" 0 100 1 0 200,
      THEN conjunct2, THEN conjunct2, THEN conjunct2]
  show ?thesis using t1 t2 t3 t4 h1 c1 h2 h3 h4 by blast
qed

text \<open>
  With height 0 the horizontal-gridline step is 0 (and \<open>yLog2 = 16\<close> exceeds the height),
  yet the loops are never entered and both constructors return.
\<close>

theorem drawGrid_termination_counterexample:
  "\<not> (NewScatter 256 0 0 100 (Fin 16) 1 0 \<noteq> None \<longleftrightarrow>
        1 \<le> grid_ystep 0 (Fin 16) \<and> ((0::int) \<le> 0 \<or> 1 \<le> (256::int) sdiv 0))
   \<and> \<not> (NewSweep 256 0 0 100 (Fin 16) 1 0 \<noteq> None \<longleftrightarrow>
        1 \<le> grid_ystep 0 (Fin 16) \<and> ((0::int) \<le> 0 \<or> 1 \<le> (256::int) sdiv 0))
   \<and> grid_ystep 0 (Fin 16) = 0 \<and> real_of_int 0 < (16::real)"
proof -
  have z: "grid_ystep 0 (Fin 16) = 0"
    by (simp add: grid_ystep_def f64_of_int_def go_int_def trunc_def is_int64_def)
  have "NewScatter 256 0 0 100 (Fin 16) 1 0 \<noteq> None" "NewSweep 256 0 0 100 (Fin 16) 1 0 \<noteq> None"
    by (rule New_not_entered; simp)+
  then show ?thesis using z by simp
qed

section \<open>Colour blending\<close>

lemma blend_Fin:
  assumes "0 \<le> r"
  shows "unat (blend c (Fin r)) = min 255 (unat c + nat \<lfloor>r\<rfloor>)"
proof -
  define n k where "n = unat c" and "k = nat \<lfloor>r\<rfloor>"
  define m where "m = min 255 (real n + r)"
  have kr: "\<lfloor>r\<rfloor> = int k" using assms by (simp add: k_def)
  have m0: "0 \<le> m" unfolding m_def using assms by simp
  have "\<lfloor>real n + r\<rfloor> = int n + \<lfloor>r\<rfloor>"
    by (metis floor_add_int add.commute of_int_of_nat_eq)
  moreover have "\<lfloor>min 255 (real n + r)\<rfloor> = min \<lfloor>255 :: real\<rfloor> \<lfloor>real n + r\<rfloor>"
    by (rule min_of_mono [symmetric]) (simp add: mono_def floor_mono)
  ultimately have "\<lfloor>m\<rfloor> = min 255 (int n + int k)" by (simp add: m_def kr)
  then have fl: "\<lfloor>m\<rfloor> = int (min 255 (n + k))" by simp
  have rng: "0 \<le> \<lfloor>m\<rfloor>" "\<lfloor>m\<rfloor> \<le> 255" "\<lfloor>m\<rfloor> < 256" unfolding fl by simp_all
  have "blend c (Fin r) = go_uint8 (Fin m)" by (simp add: blend_def m_def n_def)
  also have "\<dots> = word_of_int \<lfloor>m\<rfloor>" using m0 rng by (simp add: go_uint8_def trunc_def)
  finally have "unat (blend c (Fin r)) = nat (take_bit 8 \<lfloor>m\<rfloor>)"
    by (simp add: unat_eq_nat_uint uint_word_of_int_eq)
  also have "take_bit 8 \<lfloor>m\<rfloor> = \<lfloor>m\<rfloor>"
    by (rule take_bit_int_eq_self) (use rng in simp_all)
  also have "nat \<lfloor>m\<rfloor> = min 255 (n + k)" unfolding fl by (rule nat_int)
  finally show ?thesis by (simp only: n_def k_def)
qed

lemma blend_PInf: "blend c PInf = 255"
  by (simp add: blend_def go_uint8_def trunc_def)

lemma unat_u8_le_255: "unat (c :: 8 word) \<le> 255"
  using unsigned_less [of c, where 'a = nat] by simp

lemma blend_mono:
  assumes "f64_nonneg d"
  shows "c \<le> blend c d"
proof (cases d)
  case (Fin r)
  then have "0 \<le> r" using assms by (simp add: f64_nonneg_def)
  then have "unat (blend c d) = min 255 (unat c + nat \<lfloor>r\<rfloor>)"
    using Fin by (simp add: blend_Fin)
  then have "unat c \<le> unat (blend c d)" using unat_u8_le_255 [of c] by simp
  then show ?thesis by (simp add: word_le_nat_alt)
next
  case PInf
  have "unat c \<le> unat (255 :: 8 word)" using unat_u8_le_255 [of c] by simp
  then show ?thesis using PInf by (simp add: blend_PInf word_le_nat_alt)
next
  case NInf
  then show ?thesis using assms by (simp add: f64_nonneg_def)
next
  case NaN
  then show ?thesis using assms by (simp add: f64_nonneg_def)
qed

lemma f64_nonneg_quarter: "f64_nonneg d \<Longrightarrow> f64_nonneg (f64_div d (Fin 4))"
  by (cases d) (simp_all add: f64_nonneg_def)

lemma f64_nonneg_colorSteps:
  "0 \<le> colorSteps \<Longrightarrow> f64_nonneg (f64_div (Fin 255) (f64_of_int colorSteps))"
  by (simp add: f64_nonneg_def f64_of_int_def)

subsection \<open>One painted pixel\<close>

lemma channels_le_refl [simp]: "channels_le c c"
  by (simp add: channels_le_def)

lemma channels_le_trans: "channels_le a b \<Longrightarrow> channels_le b c \<Longrightarrow> channels_le a c"
  by (auto simp: channels_le_def)

lemma canvas_le_refl [simp]: "canvas_le i i"
  by (simp add: canvas_le_def)

lemma canvas_le_trans: "canvas_le i j \<Longrightarrow> canvas_le j k \<Longrightarrow> canvas_le i k"
  unfolding canvas_le_def using channels_le_trans by blast

lemma load_getRGBA:
  "point_In \<lparr>X = x, Y = y\<rparr> (Rect i) \<Longrightarrow> load i (getRGBA i x y) = RGBAAt i x y"
  by (simp add: getRGBA_def load_def RGBAAt_def)

lemma store_getRGBA_out:
  "\<not> point_In \<lparr>X = x, Y = y\<rparr> (Rect i) \<Longrightarrow> store i (getRGBA i x y) c = i"
  by (simp add: getRGBA_def store_def)

text \<open>A read-modify-write through \<open>getRGBA\<close>, seen pixel by pixel.\<close>

lemma RGBAAt_modify:
  assumes "wf_image i"
  shows "RGBAAt (store i (getRGBA i x y) (f (load i (getRGBA i x y)))) x' y' =
           (if (x', y') = (x, y) \<and> point_In \<lparr>X = x, Y = y\<rparr> (Rect i)
            then f (RGBAAt i x y) else RGBAAt i x' y')"
proof (cases "(x', y') = (x, y)")
  case False
  then show ?thesis using RGBAAt_store_other [OF assms False] by auto
next
  case True
  show ?thesis
  proof (cases "point_In \<lparr>X = x, Y = y\<rparr> (Rect i)")
    case inb: True
    show ?thesis
      using True inb RGBAAt_store_same [OF assms inb] load_getRGBA [OF inb] by simp
  next
    case out: False
    show ?thesis using True out store_getRGBA_out [OF out] by simp
  qed
qed

lemma RGBAAt_paint_success:
  assumes "wf_image i"
  shows "RGBAAt (paint_success i x y d) x' y' =
           (if (x', y') = (x, y) \<and> point_In \<lparr>X = x, Y = y\<rparr> (Rect i)
            then (RGBAAt i x y)\<lparr>R := blend (R (RGBAAt i x y)) (f64_div d (Fin 4)),
                                 G := blend (G (RGBAAt i x y)) (f64_div d (Fin 4)),
                                 B := blend (B (RGBAAt i x y)) d\<rparr>
            else RGBAAt i x' y')"
  unfolding paint_success_def Let_def
  using RGBAAt_modify [OF assms, of x y
      "\<lambda>px. px\<lparr>R := blend (R px) (f64_div d (Fin 4)), G := blend (G px) (f64_div d (Fin 4)),
                 B := blend (B px) d\<rparr>" x' y']
  by (simp add: load_getRGBA)

lemma RGBAAt_paint_failure:
  assumes "wf_image i"
  shows "RGBAAt (paint_failure i x y d) x' y' =
           (if (x', y') = (x, y) \<and> point_In \<lparr>X = x, Y = y\<rparr> (Rect i)
            then (RGBAAt i x y)\<lparr>R := blend (R (RGBAAt i x y)) d\<rparr>
            else RGBAAt i x' y')"
  unfolding paint_failure_def Let_def
  using RGBAAt_modify [OF assms, of x y "\<lambda>px. px\<lparr>R := blend (R px) d\<rparr>" x' y']
  by (simp add: load_getRGBA)

lemma canvas_ok_paint:
  "canvas_ok rc i \<Longrightarrow> canvas_ok rc (paint_success i x y d)"
  "canvas_ok rc i \<Longrightarrow> canvas_ok rc (paint_failure i x y d)"
  by (simp_all add: paint_success_def paint_failure_def Let_def canvas_ok_store)

lemma canvas_le_paint_success:
  assumes "wf_image i" and "f64_nonneg d"
  shows "canvas_le i (paint_success i x y d)"
  unfolding canvas_le_def
  using blend_mono [OF assms(2)] blend_mono [OF f64_nonneg_quarter [OF assms(2)]]
  by (simp add: RGBAAt_paint_success [OF assms(1)] channels_le_def)

lemma canvas_le_paint_failure:
  assumes "wf_image i" and "f64_nonneg d"
  shows "canvas_le i (paint_failure i x y d)"
  unfolding canvas_le_def
  using blend_mono [OF assms(2)]
  by (simp add: RGBAAt_paint_failure [OF assms(1)] channels_le_def)

subsection \<open>Invariants of the loops of sweep.Record\<close>

lemma walk_invariant:
  assumes "\<And>y s. P s \<Longrightarrow> P (body y s)" and "P s"
  shows "P (snd (walk body yMin y' (y, s)))"
  using assms
proof (induction body yMin y' "(y, s)" arbitrary: y s rule: walk.induct)
  case (1 body yMin y' y s)
  show ?case
  proof (cases "yMin < y'")
    case True
    have "P (body y' s)" by (rule "1.prems"(1)) (rule "1.prems"(2))
    then have "P (snd (walk body yMin (y' - 1) (y', body y' s)))"
      using "1.hyps" [OF True] "1.prems"(1) by blast
    then show ?thesis using True by (subst walk.simps) simp
  next
    case False
    then show ?thesis using "1.prems"(2) by (subst walk.simps) simp
  qed
qed

lemma fold_walk_invariant:
  assumes "\<And>t y s. P s \<Longrightarrow> P (body t y s)" and "P s"
  shows "P (snd (fold (\<lambda>t (y, s). walk (body t) (yMin t) y (y, s)) ts (y0, s)))"
  using assms(2)
proof (induction ts arbitrary: y0 s)
  case Nil
  then show ?case by simp
next
  case (Cons t ts)
  obtain y1 s1 where w: "walk (body t) (yMin t) y0 (y0, s) = (y1, s1)"
    by (cases "walk (body t) (yMin t) y0 (y0, s)")
  have "P (snd (walk (body t) (yMin t) y0 (y0, s)))"
    by (rule walk_invariant) (use assms(1) Cons.prems in auto)
  then have "P s1" using w by simp
  from Cons.IH [OF this, of y1] show ?case using w by simp
qed

lemma sweep_paint_step:
  assumes "f64_nonneg (sweep_cDelta v)" and "canvas_ok rc s \<and> canvas_le i0 s"
  shows "canvas_ok rc (sweep_paint v e x y s) \<and> canvas_le i0 (sweep_paint v e x y s)"
proof -
  have wf: "wf_image s" using assms(2) by (simp add: canvas_ok_def)
  have "canvas_le s (sweep_paint v e x y s)"
    using canvas_le_paint_success [OF wf assms(1)] canvas_le_paint_failure [OF wf assms(1)]
    by (simp add: sweep_paint_def)
  then show ?thesis
    using assms(2) canvas_le_trans canvas_ok_paint by (auto simp: sweep_paint_def)
qed

lemma sweep_Record_mono:
  assumes "sweep_ok rc v"
  shows "sweep_ok rc (sweep_Record v e)"
    and "canvas_le (sweep_vis v) (sweep_vis (sweep_Record v e))"
proof -
  let ?P = "\<lambda>s. canvas_ok rc s \<and> canvas_le (sweep_vis v) s"
  have d: "f64_nonneg (sweep_cDelta v)" using assms by (simp add: sweep_ok_def)
  have "?P (snd (fold (\<lambda>t (y, s). walk (sweep_paint v e (sweep_x v t)) (sweep_yMin v e t) y (y, s))
                   (sweep_times e) (sweep_h v sdiv 2, sweep_vis v)))"
    by (rule fold_walk_invariant [where P = ?P and body = "\<lambda>t. sweep_paint v e (sweep_x v t)"])
      (use assms sweep_paint_step [OF d] in \<open>auto simp: sweep_ok_def\<close>)
  then show "sweep_ok rc (sweep_Record v e)"
    "canvas_le (sweep_vis v) (sweep_vis (sweep_Record v e))"
    using d by (simp_all add: sweep_Record_def sweep_ok_def)
qed

lemma scatter_Record_mono:
  assumes "scatter_ok rc v"
  shows "scatter_ok rc (scatter_Record v e)"
    and "canvas_le (scatter_vis v) (scatter_vis (scatter_Record v e))"
proof -
  have wf: "wf_image (scatter_vis v)" and d: "f64_nonneg (f64_div (Fin 255) (scatter_colors v))"
    using assms by (simp_all add: scatter_ok_def canvas_ok_def)
  show "scatter_ok rc (scatter_Record v e)"
    using assms by (simp add: scatter_Record_def Let_def scatter_ok_def canvas_ok_paint)
  show "canvas_le (scatter_vis v) (scatter_vis (scatter_Record v e))"
    using canvas_le_paint_success [OF wf d] canvas_le_paint_failure [OF wf d]
    by (simp add: scatter_Record_def Let_def)
qed

lemma sweep_Records_mono:
  assumes "sweep_ok rc v"
  shows "sweep_ok rc (fold (\<lambda>e v. sweep_Record v e) es v)"
    and "canvas_le (sweep_vis v) (sweep_vis (fold (\<lambda>e v. sweep_Record v e) es v))"
  using assms
proof (induction es arbitrary: v)
  case Nil
  { case 1 then show ?case by simp }
  { case 2 then show ?case by simp }
next
  case (Cons e es)
  { case 1 then show ?case using Cons.IH(1) sweep_Record_mono(1) by simp }
  { case 2 then show ?case
      using Cons.IH(2) [OF sweep_Record_mono(1) [OF 2]] sweep_Record_mono(2) [OF 2]
        canvas_le_trans by simp blast }
qed

lemma scatter_Records_mono:
  assumes "scatter_ok rc v"
  shows "scatter_ok rc (fold (\<lambda>e v. scatter_Record v e) es v)"
    and "canvas_le (scatter_vis v) (scatter_vis (fold (\<lambda>e v. scatter_Record v e) es v))"
  using assms
proof (induction es arbitrary: v)
  case Nil
  { case 1 then show ?case by simp }
  { case 2 then show ?case by simp }
next
  case (Cons e es)
  { case 1 then show ?case using Cons.IH(1) scatter_Record_mono(1) by simp }
  { case 2 then show ?case
      using Cons.IH(2) [OF scatter_Record_mono(1) [OF 2]] scatter_Record_mono(2) [OF 2]
        canvas_le_trans by simp blast }
qed

lemma NewSweep_ok:
  assumes "NewSweep width height minTime maxTime yLog2 colorSteps xGrid = Some v"
  shows "canvas_ok (image_Rect 0 0 width height) (sweep_vis v)"
    and "sweep_w v = width" and "sweep_h v = height"
    and "sweep_tA v = f64_of_int minTime" and "sweep_tOmega v = f64_of_int maxTime"
    and "sweep_yLog2 v = yLog2"
    and "sweep_cDelta v = f64_div (Fin 255) (f64_of_int colorSteps)"
  using sweep_drawGrid_result [OF assms [unfolded NewSweep_def],
      of "image_Rect 0 0 width height"] canvas_ok_initializeVisualization [of width height]
  by auto

lemma NewScatter_ok:
  assumes "NewScatter width height minTime maxTime yLog2 colorSteps xGrid = Some v"
  shows "canvas_ok (image_Rect 0 0 width height) (scatter_vis v)"
    and "scatter_w v = width" and "scatter_h v = height"
    and "scatter_tA v = f64_of_int minTime" and "scatter_tOmega v = f64_of_int maxTime"
    and "scatter_yLog2 v = yLog2"
    and "scatter_colors v = f64_of_int colorSteps"
  using scatter_drawGrid_result [OF assms [unfolded NewScatter_def],
      of "image_Rect 0 0 width height"] canvas_ok_initializeVisualization [of width height]
  by auto

text \<open>
  C2, as the code has it. With an increment that is not negative (a colour-step count of
  0 or more), a blend never lowers a channel and never wraps: the new value is the old
  one plus the whole part of the increment, clamped to 255. So over any further
  sequence of \<open>Record\<close> calls of a sweep or scatter renderer built with such a count, no
  channel of any pixel decreases, and each stays within \<open>[0, 255]\<close>.
\<close>

theorem blend_saturates:
  "(f64_nonneg d \<longrightarrow>
      c \<le> blend c d \<and> unat (blend c d) \<le> 255 \<and>
      (\<forall>r. d = Fin r \<longrightarrow> unat (blend c d) = min 255 (unat c + nat \<lfloor>r\<rfloor>)) \<and>
      (d = PInf \<longrightarrow> blend c d = 255))
   \<and> (0 \<le> colorSteps \<and>
       NewSweep width height minTime maxTime yLog2 colorSteps xGrid = Some v \<longrightarrow>
         canvas_le (sweep_vis (fold (\<lambda>e v. sweep_Record v e) es v))
                   (sweep_vis (fold (\<lambda>e v. sweep_Record v e) (es @ es') v)))
   \<and> (0 \<le> colorSteps \<and>
       NewScatter width height minTime maxTime yLog2 colorSteps xGrid = Some u \<longrightarrow>
         canvas_le (scatter_vis (fold (\<lambda>e v. scatter_Record v e) es u))
                   (scatter_vis (fold (\<lambda>e v. scatter_Record v e) (es @ es') u)))"
proof (intro conjI impI allI)
  assume d: "f64_nonneg d"
  show "c \<le> blend c d" by (rule blend_mono [OF d])
  show "unat (blend c d) \<le> 255" by (rule unat_u8_le_255)
  show "unat (blend c d) = min 255 (unat c + nat \<lfloor>r\<rfloor>)" if "d = Fin r" for r
    using d that by (simp add: blend_Fin f64_nonneg_def)
  show "blend c d = 255" if "d = PInf" using that by (simp add: blend_PInf)
next
  assume a: "0 \<le> colorSteps \<and>
             NewSweep width height minTime maxTime yLog2 colorSteps xGrid = Some v"
  then have "sweep_ok (image_Rect 0 0 width height) v"
    using NewSweep_ok(1,7) [of width height minTime maxTime yLog2 colorSteps xGrid v]
    by (simp add: sweep_ok_def f64_nonneg_colorSteps)
  then have "sweep_ok (image_Rect 0 0 width height) (fold (\<lambda>e v. sweep_Record v e) es v)"
    by (rule sweep_Records_mono(1))
  then show "canvas_le (sweep_vis (fold (\<lambda>e v. sweep_Record v e) es v))
               (sweep_vis (fold (\<lambda>e v. sweep_Record v e) (es @ es') v))"
    using sweep_Records_mono(2) by simp
next
  assume a: "0 \<le> colorSteps \<and>
             NewScatter width height minTime maxTime yLog2 colorSteps xGrid = Some u"
  then have "scatter_ok (image_Rect 0 0 width height) u"
    using NewScatter_ok(1,7) [of width height minTime maxTime yLog2 colorSteps xGrid u]
    by (simp add: scatter_ok_def f64_nonneg_colorSteps)
  then have "scatter_ok (image_Rect 0 0 width height)
               (fold (\<lambda>e v. scatter_Record v e) es u)"
    by (rule scatter_Records_mono(1))
  then show "canvas_le (scatter_vis (fold (\<lambda>e v. scatter_Record v e) es u))
               (scatter_vis (fold (\<lambda>e v. scatter_Record v e) (es @ es') u))"
    using scatter_Records_mono(2) by simp
qed

lemma grid_ystep_4_1: "grid_ystep 4 (Fin 1) = 4"
  by (simp add: grid_ystep_def f64_of_int_def go_int_def trunc_def is_int64_def)

theorem blend_saturates_witness:
  "f64_nonneg (Fin (255 / 4)) \<and> (33 :: 8 word) \<le> blend 33 (Fin (255 / 4)) \<and>
   unat (blend 33 (Fin (255 / 4))) = 96 \<and> blend 200 (Fin (255 / 4)) = 255 \<and>
   blend 33 PInf = 255 \<and>
   (\<exists>v. NewSweep 4 4 0 10 (Fin 1) 1 0 = Some v \<and>
        canvas_le (sweep_vis v)
          (sweep_vis (fold (\<lambda>e v. sweep_Record v e)
             [\<lparr>Start = 1, Run = 4, Status = 0\<rparr>, \<lparr>Start = 2, Run = 3, Status = 1\<rparr>] v))) \<and>
   (\<exists>u. NewScatter 4 4 0 10 (Fin 1) 1 0 = Some u \<and>
        canvas_le (scatter_vis u)
          (scatter_vis (fold (\<lambda>e v. scatter_Record v e)
             [\<lparr>Start = 1, Run = 4, Status = 0\<rparr>, \<lparr>Start = 2, Run = 3, Status = 1\<rparr>] u)))"
proof -
  have n: "f64_nonneg (Fin (255 / 4))" "f64_nonneg PInf" by (simp_all add: f64_nonneg_def)
  note b = blend_saturates [THEN conjunct1, rule_format]
  have b1: "(33 :: 8 word) \<le> blend 33 (Fin (255 / 4))" using b [OF n(1)] by blast
  have "unat (blend 33 (Fin (255 / 4))) = min 255 (unat (33 :: 8 word) + nat \<lfloor>255 / 4 :: real\<rfloor>)"
    using b [OF n(1), of 33] by blast
  then have b2: "unat (blend 33 (Fin (255 / 4))) = 96" by simp
  have "unat (blend 200 (Fin (255 / 4))) = min 255 (unat (200 :: 8 word) + nat \<lfloor>255 / 4 :: real\<rfloor>)"
    using b [OF n(1), of 200] by blast
  then have "unat (blend 200 (Fin (255 / 4))) = unat (255 :: 8 word)" by simp
  then have b3: "blend 200 (Fin (255 / 4)) = 255" by (simp only: word_unat_eq_iff)
  have b4: "blend 33 PInf = 255" using b [OF n(2), of 33] by blast
  have "NewSweep 4 4 0 10 (Fin 1) 1 0 \<noteq> None"
    by (subst NewSweep_returns_iff) (simp_all add: grid_ystep_4_1)
  then obtain v where v: "NewSweep 4 4 0 10 (Fin 1) 1 0 = Some v" by blast
  have "NewScatter 4 4 0 10 (Fin 1) 1 0 \<noteq> None"
    by (subst NewScatter_returns_iff) (simp_all add: grid_ystep_4_1)
  then obtain u where u: "NewScatter 4 4 0 10 (Fin 1) 1 0 = Some u" by blast
  have s: "canvas_le (sweep_vis v)
          (sweep_vis (fold (\<lambda>e v. sweep_Record v e)
             [\<lparr>Start = 1, Run = 4, Status = 0\<rparr>, \<lparr>Start = 2, Run = 3, Status = 1\<rparr>] v))"
    using blend_saturates [THEN conjunct2, THEN conjunct1, rule_format,
        of 1 4 4 0 10 "Fin 1" 0 v "[]"
           "[\<lparr>Start = 1, Run = 4, Status = 0\<rparr>, \<lparr>Start = 2, Run = 3, Status = 1\<rparr>]"] v
    by simp
  have t: "canvas_le (scatter_vis u)
          (scatter_vis (fold (\<lambda>e v. scatter_Record v e)
             [\<lparr>Start = 1, Run = 4, Status = 0\<rparr>, \<lparr>Start = 2, Run = 3, Status = 1\<rparr>] u))"
    using blend_saturates [THEN conjunct2, THEN conjunct2, rule_format,
        of 1 4 4 0 10 "Fin 1" 0 u "[]"
           "[\<lparr>Start = 1, Run = 4, Status = 0\<rparr>, \<lparr>Start = 2, Run = 3, Status = 1\<rparr>]"] u
    by simp
  show ?thesis using n(1) b1 b2 b3 b4 v u s t by blast
qed

text \<open>
  A scatter renderer built with \<open>colorSteps = -255\<close> has the increment \<open>255 / -255 = -1\<close>:
  recording one failure lowers the red channel of its pixel from 45 to 44.
\<close>

lemma scatter_yloop_unfold:
  "0 < y \<Longrightarrow> scatter_yloop step y vis
               = scatter_yloop step (int64 (y - step)) (drawYGridLine vis y)"
  by (subst scatter_yloop.simps) simp

lemma NewScatter_1_1:
  "NewScatter 1 1 0 1 (Fin 1) (- 255) 0 =
     Some \<lparr>scatter_w = 1, scatter_h = 1,
           scatter_vis = \<lparr>Pix = [45, 45, 45, 255], Stride = 4, Rect = image_Rect 0 0 1 1\<rparr>,
           scatter_tA = Fin 0, scatter_tOmega = Fin 1, scatter_yLog2 = Fin 1,
           scatter_colors = Fin (- 255)\<rparr>"
proof -
  have s: "grid_ystep 1 (Fin 1) = 1" by code_simp
  have i: "int64 0 = 0" by code_simp
  have d: "drawYGridLine (drawYGridLine (initializeVisualization 1 1) 1) 0
           = \<lparr>Pix = [45, 45, 45, 255], Stride = 4, Rect = image_Rect 0 0 1 1\<rparr>"
    by code_simp
  have "scatter_yloop 1 1 (initializeVisualization 1 1)
        = Some (drawYGridLine (initializeVisualization 1 1) 1)"
    by (simp add: scatter_yloop_unfold i scatter_yloop_not_entered)
  then show ?thesis
    by (simp add: NewScatter_def scatter_drawGrid_def grid_xlines_def s d f64_of_int_def)
qed

theorem blend_decrease_counterexample:
  "\<exists>v. NewScatter 1 1 0 1 (Fin 1) (- 255) 0 = Some v \<and>
       R (RGBAAt (scatter_vis v) 0 0) = 45 \<and>
       R (RGBAAt (scatter_vis (scatter_Record v \<lparr>Start = 0, Run = 2, Status = 1\<rparr>)) 0 0) = 44"
proof -
  define v where "v = \<lparr>scatter_w = 1, scatter_h = 1,
           scatter_vis = \<lparr>Pix = [45, 45, 45, 255], Stride = 4, Rect = image_Rect 0 0 1 1\<rparr>,
           scatter_tA = Fin 0, scatter_tOmega = Fin 1, scatter_yLog2 = Fin 1,
           scatter_colors = Fin (- 255)\<rparr>"
  define e where "e = \<lparr>Start = 0, Run = 2, Status = 1\<rparr>"
  have x: "scatter_x v e = 0" unfolding v_def e_def by code_simp
  have "trunc (1 :: real) = 1" by (simp add: trunc_def)
  then have y: "scatter_y v e = 0"
    by (simp add: scatter_y_def v_def e_def f64_of_int_def go_int_def is_int64_def int64_def)
  have p: "paint_failure (scatter_vis v) 0 0 (f64_div (Fin 255) (scatter_colors v))
           = \<lparr>Pix = [44, 45, 45, 255], Stride = 4, Rect = image_Rect 0 0 1 1\<rparr>"
    unfolding v_def by code_simp
  have st: "Status e \<noteq> 0" by (simp add: e_def)
  have r: "scatter_vis (scatter_Record v e)
           = \<lparr>Pix = [44, 45, 45, 255], Stride = 4, Rect = image_Rect 0 0 1 1\<rparr>"
    using st by (simp add: scatter_Record_def Let_def x y p)
  have a: "R (RGBAAt (scatter_vis v) 0 0) = 45" unfolding v_def by code_simp
  have b: "R (RGBAAt \<lparr>Pix = [44, 45, 45, 255], Stride = 4, Rect = image_Rect 0 0 1 1\<rparr> 0 0) = 44"
    by code_simp
  show ?thesis
    using NewScatter_1_1 a b r unfolding v_def [symmetric] e_def [symmetric] by simp
qed

section \<open>The scatter dispatch\<close>

text \<open>
  What the dispatch builds: \<open>generateScatterVisualization\<close> hands \<open>NewScatter\<close> the upper
  time bound as \<open>minTime\<close> and the lower one as \<open>maxTime\<close>, so the renderer's \<open>tA\<close> is the
  configured \<open>t\<Omega>\<close> and the other way round.
\<close>

lemma generateScatterVisualization_bounds:
  assumes "generateScatterVisualization fl = Some v"
  shows "scatter_tA v = f64_of_int (flag_tOmega fl)"
    and "scatter_tOmega v = f64_of_int (flag_tA fl)"
    and "scatter_x v e = xpos (flag_w fl) (f64_of_int (flag_tOmega fl)) (f64_of_int (flag_tA fl))
                           (f64_of_int (sint (Start e)))"
  using NewScatter_ok [OF assms [unfolded generateScatterVisualization_def]]
  by (simp_all add: scatter_x_def)

lemma generateSweepVisualization_bounds:
  assumes "generateSweepVisualization fl = Some v"
  shows "sweep_tA v = f64_of_int (flag_tA fl)"
    and "sweep_tOmega v = f64_of_int (flag_tOmega fl)"
    and "sweep_x v t = xpos (flag_w fl) (f64_of_int (flag_tA fl)) (f64_of_int (flag_tOmega fl))
                         (f64_of_int t)"
  using NewSweep_ok [OF assms [unfolded generateSweepVisualization_def]]
  by (simp_all add: sweep_x_def)

text \<open>
  C4 at a concrete input. With the default 256 by 128 canvas, \<open>tA = 0\<close>, \<open>t\<Omega> = 256\<close> and
  an event starting at 64, the linear mapping of the claim gives column 64 (and the
  sweep dispatch uses it); the scatter dispatch plots the event at column 192.
\<close>

theorem scatter_dispatch_mirrored:
  "\<exists>v s. generateScatterVisualization
           \<lparr>flag_tA = 0, flag_tOmega = 256, flag_xGrid = 0, flag_yLog2 = Fin 16,
            flag_w = 256, flag_h = 128, flag_colorSteps = 1\<rparr> = Some v \<and>
         scatter_x v \<lparr>Start = 64, Run = 4, Status = 0\<rparr> = 192 \<and>
         \<lfloor>256 * (64 - 0) / (256 - 0) :: real\<rfloor> = 64 \<and>
         generateSweepVisualization
           \<lparr>flag_tA = 0, flag_tOmega = 256, flag_xGrid = 0, flag_yLog2 = Fin 16,
            flag_w = 256, flag_h = 128, flag_colorSteps = 1\<rparr> = Some s \<and>
         sweep_x s 64 = 64"
proof -
  define fl where "fl = \<lparr>flag_tA = 0, flag_tOmega = 256, flag_xGrid = 0, flag_yLog2 = Fin 16,
            flag_w = 256, flag_h = 128, flag_colorSteps = 1\<rparr>"
  have "generateScatterVisualization fl \<noteq> None"
    unfolding generateScatterVisualization_def
    by (subst NewScatter_returns_iff) (simp_all add: fl_def grid_ystep_128_16)
  then obtain v where v: "generateScatterVisualization fl = Some v" by blast
  have "generateSweepVisualization fl \<noteq> None"
    unfolding generateSweepVisualization_def
    by (subst NewSweep_returns_iff) (simp_all add: fl_def grid_ystep_128_16)
  then obtain s where s: "generateSweepVisualization fl = Some s" by blast
  have x1: "xpos 256 (f64_of_int 256) (f64_of_int 0) (f64_of_int (sint (64 :: 32 word))) = 192"
    by code_simp
  have x2: "xpos 256 (f64_of_int 0) (f64_of_int 256) (f64_of_int 64) = 64"
    by code_simp
  have a: "scatter_x v \<lparr>Start = 64, Run = 4, Status = 0\<rparr> = 192"
    using generateScatterVisualization_bounds(3) [OF v] x1 by (simp add: fl_def)
  have b: "sweep_x s 64 = 64"
    using generateSweepVisualization_bounds(3) [OF s] x2 by (simp add: fl_def)
  have c: "\<lfloor>256 * (64 - 0) / (256 - 0) :: real\<rfloor> = 64" by simp
  show ?thesis using v s a b c unfolding fl_def by blast
qed

section \<open>The arc of sweep.Record\<close>

lemma walk_eq:
  "walk body yMin y' (y, s) =
     (if yMin < y' then (yMin + 1, fold body (rev [yMin + 1 .. y']) s) else (y, s))"
proof (induction body yMin y' "(y, s)" arbitrary: y s rule: walk.induct)
  case (1 body yMin y' y s)
  show ?case
  proof (cases "yMin < y'")
    case False
    then show ?thesis by (subst walk.simps) simp
  next
    case True
    have up: "[yMin + 1 .. y'] = [yMin + 1 .. y' - 1] @ [y']"
      using True by (intro upto_rec2) simp
    have "walk body yMin y' (y, s) = walk body yMin (y' - 1) (y', body y' s)"
      using True by (subst walk.simps) simp
    also have "\<dots> = (if yMin < y' - 1
                       then (yMin + 1, fold body (rev [yMin + 1 .. y' - 1]) (body y' s))
                       else (y', body y' s))"
      by (rule "1.hyps" [OF True])
    also have "\<dots> = (yMin + 1, fold body (rev [yMin + 1 .. y']) s)"
    proof (cases "yMin < y' - 1")
      case True
      then show ?thesis by (simp add: up)
    next
      case False
      then have "y' = yMin + 1" using \<open>yMin < y'\<close> by simp
      then show ?thesis by simp
    qed
    finally show ?thesis using True by simp
  qed
qed

lemma fold_snoc_cells:
  "fold (\<lambda>y' cs. cs @ [(x, y')]) ys cs = cs @ map (Pair x) ys"
  by (induction ys arbitrary: cs) simp_all

lemma walk_cells:
  "walk (\<lambda>y' cs. cs @ [(x, y')]) yMin y (y, cs) =
     (if yMin < y then (yMin + 1, cs @ map (Pair x) (rev [yMin + 1 .. y])) else (y, cs))"
  by (simp only: walk_eq fold_snoc_cells)

lemma fold_paint_cells:
  "fold (P x) ys j = fold (\<lambda>(x, y). P x y) (map (Pair x) ys) j"
  by (induction ys arbitrary: j) simp_all

lemma walk_paint:
  "walk (P x) yMin y (y, fold (\<lambda>(x, y). P x y) cs i) =
     (if yMin < y
      then (yMin + 1, fold (\<lambda>(x, y). P x y) (cs @ map (Pair x) (rev [yMin + 1 .. y])) i)
      else (y, fold (\<lambda>(x, y). P x y) cs i))"
  unfolding walk_eq fold_append comp_apply fold_paint_cells [of P x] ..

text \<open>The canvas after the outer loop is the fold of the paint step over the visited cells.\<close>

lemma fold_walk_cells:
  "fold (\<lambda>t (y, i). walk (P (xf t)) (yMin t) y (y, i)) ts (y0, fold (\<lambda>(x, y). P x y) cs0 i0)
   = (case fold (\<lambda>t (y, cs). walk (\<lambda>y' cs. cs @ [(xf t, y')]) (yMin t) y (y, cs)) ts (y0, cs0)
      of (y1, cs1) \<Rightarrow> (y1, fold (\<lambda>(x, y). P x y) cs1 i0))"
proof (induction ts arbitrary: y0 cs0)
  case Nil
  show ?case by (simp only: fold.simps id_apply prod.case)
next
  case (Cons t ts)
  show ?case
  proof (cases "yMin t < y0")
    case True
    have l: "walk (P (xf t)) (yMin t) y0 (y0, fold (\<lambda>(x, y). P x y) cs0 i0) =
               (yMin t + 1,
                fold (\<lambda>(x, y). P x y) (cs0 @ map (Pair (xf t)) (rev [yMin t + 1 .. y0])) i0)"
      using True by (simp only: walk_paint if_True)
    have r: "walk (\<lambda>y' cs. cs @ [(xf t, y')]) (yMin t) y0 (y0, cs0) =
               (yMin t + 1, cs0 @ map (Pair (xf t)) (rev [yMin t + 1 .. y0]))"
      using True by (simp only: walk_cells if_True)
    show ?thesis
      using Cons.IH [of "yMin t + 1" "cs0 @ map (Pair (xf t)) (rev [yMin t + 1 .. y0])"]
      by (simp only: fold.simps comp_apply prod.case l r)
  next
    case False
    have l: "walk (P (xf t)) (yMin t) y0 (y0, fold (\<lambda>(x, y). P x y) cs0 i0) =
               (y0, fold (\<lambda>(x, y). P x y) cs0 i0)"
      using False by (simp only: walk_paint if_False)
    have r: "walk (\<lambda>y' cs. cs @ [(xf t, y')]) (yMin t) y0 (y0, cs0) = (y0, cs0)"
      using False by (simp only: walk_cells if_False)
    show ?thesis
      using Cons.IH [of y0 cs0] by (simp only: fold.simps comp_apply prod.case l r)
  qed
qed

lemma sweep_Record_cells:
  "sweep_vis (sweep_Record v e) =
     fold (\<lambda>(x, y). sweep_paint v e x y) (sweep_cells v e) (sweep_vis v)"
proof -
  obtain y1 cs1 where c: "fold (\<lambda>t (y, cs). walk (\<lambda>y' cs. cs @ [(sweep_x v t, y')])
        (sweep_yMin v e t) y (y, cs)) (sweep_times e) (sweep_h v sdiv 2, []) = (y1, cs1)"
    by (rule prod.exhaust)
  have "fold (\<lambda>t (y, i). walk (sweep_paint v e (sweep_x v t)) (sweep_yMin v e t) y (y, i))
          (sweep_times e) (sweep_h v sdiv 2, fold (\<lambda>(x, y). sweep_paint v e x y) [] (sweep_vis v))
        = (y1, fold (\<lambda>(x, y). sweep_paint v e x y) cs1 (sweep_vis v))"
    unfolding fold_walk_cells [of "sweep_paint v e" "sweep_x v" "sweep_yMin v e"] c by simp
  then show ?thesis
    unfolding sweep_Record_def sweep_cells_def c by simp
qed

subsection \<open>The rows of the arc\<close>

lemma hd_upto: "i \<le> j \<Longrightarrow> hd [i .. j] = i"
  by (simp add: upto_rec1)

lemma successively_upto: "successively (\<lambda>a b. b = a + 1) [i .. j]"
proof (induction "nat (j - i + 1)" arbitrary: i)
  case 0
  then show ?case by simp
next
  case (Suc n)
  then have le: "i \<le> j" by simp
  have IH: "successively (\<lambda>a b. b = a + 1) [i + 1 .. j]"
    by (rule Suc.hyps(1)) (use Suc.hyps(2) in simp)
  have e: "[i .. j] = i # [i + 1 .. j]" using le by (rule upto_rec1)
  have "[i + 1 .. j] = [] \<or> hd [i + 1 .. j] = i + 1"
    by (cases "i + 1 \<le> j") (simp_all add: hd_upto)
  then show ?case unfolding e successively_Cons using IH by blast
qed

lemma successively_weaken:
  "successively P xs \<Longrightarrow> (\<And>a b. P a b \<Longrightarrow> Q a b) \<Longrightarrow> successively Q xs"
  by (induction xs rule: induct_list012) auto

lemma arc_rev_upto: "successively arc_step (rev [i .. j])"
proof -
  have "successively (\<lambda>a b. a = b + 1) (rev [i .. j])"
    unfolding successively_rev by (rule successively_upto)
  then show ?thesis by (rule successively_weaken) (simp add: arc_step_def)
qed

lemma hd_last_rev_upto:
  "i \<le> j \<Longrightarrow> hd (rev [i .. j]) = j" "i \<le> j \<Longrightarrow> last (rev [i .. j]) = i"
proof -
  assume le: "i \<le> j"
  have a: "[i .. j] = [i .. j - 1] @ [j]" using le by (rule upto_rec2)
  have b: "[i .. j] = i # [i + 1 .. j]" using le by (rule upto_rec1)
  show "hd (rev [i .. j]) = j" by (subst a) simp
  show "last (rev [i .. j]) = i" by (subst b) simp
qed

lemma arc_inv_step:
  assumes "arc_inv y0 (y, cs)"
  shows "arc_inv y0 (walk (\<lambda>y' cs. cs @ [(x, y')]) yMin y (y, cs))"
proof (cases "yMin < y")
  case False
  then show ?thesis using assms by (simp add: walk_cells)
next
  case True
  define new where "new = rev [yMin + 1 .. y]"
  have ne: "new \<noteq> []" and hd: "hd new = y" and la: "last new = yMin + 1"
    using True hd_last_rev_upto [of "yMin + 1" y] by (auto simp: new_def)
  have sn: "successively arc_step new" unfolding new_def by (rule arc_rev_upto)
  have m0: "map (snd \<circ> Pair x) new = new" by (simp add: comp_def)
  have m: "map snd (cs @ map (Pair x) new) = map snd cs @ new"
    by (simp add: comp_def)
  have join: "cs \<noteq> [] \<Longrightarrow> arc_step (last (map snd cs)) (hd new)"
    using assms hd by (simp add: arc_inv_def last_map arc_step_def)
  have s: "successively arc_step (map snd cs @ new)"
    using assms sn join by (auto simp: successively_append_iff arc_inv_def)
  have h: "snd (hd (cs @ map (Pair x) new)) = y0"
    using assms ne hd by (cases cs) (auto simp: arc_inv_def hd_map)
  have l: "snd (last (cs @ map (Pair x) new)) = yMin + 1"
    using ne la by (simp add: last_map)
  show ?thesis
    using True s h l ne by (simp add: walk_cells new_def [symmetric] arc_inv_def m0)
qed

lemma arc_inv_fold:
  assumes "arc_inv y0 st"
  shows "arc_inv y0
           (fold (\<lambda>t (y, cs). walk (\<lambda>y' cs. cs @ [(xf t, y')]) (yMin t) y (y, cs)) ts st)"
  using assms
proof (induction ts arbitrary: st)
  case Nil
  then show ?case by simp
next
  case (Cons t ts)
  obtain y cs where st: "st = (y, cs)" by (cases st)
  have "arc_inv y0 (walk (\<lambda>y' cs. cs @ [(xf t, y')]) (yMin t) y (y, cs))"
    using Cons.prems unfolding st by (rule arc_inv_step)
  from Cons.IH [OF this] show ?case by (simp add: st)
qed

lemma sweep_cells_arc:
  "successively arc_step (map snd (sweep_cells v e))"
  "sweep_cells v e \<noteq> [] \<Longrightarrow> snd (hd (sweep_cells v e)) = sweep_h v sdiv 2"
proof -
  have "arc_inv (sweep_h v sdiv 2) (sweep_h v sdiv 2, [])" by (simp add: arc_inv_def)
  from arc_inv_fold [OF this, of "sweep_x v" "sweep_yMin v e" "sweep_times e"]
  have inv: "arc_inv (sweep_h v sdiv 2)
          (fold (\<lambda>t (y, cs). walk (\<lambda>y' cs. cs @ [(sweep_x v t, y')]) (sweep_yMin v e t) y (y, cs))
             (sweep_times e) (sweep_h v sdiv 2, []))" .
  show "successively arc_step (map snd (sweep_cells v e))"
    using inv by (simp add: arc_inv_def sweep_cells_def)
  show "snd (hd (sweep_cells v e)) = sweep_h v sdiv 2" if "sweep_cells v e \<noteq> []"
    using inv that by (simp add: arc_inv_def sweep_cells_def)
qed

lemma arc_nonincreasing:
  "successively arc_step rs \<Longrightarrow> sorted_wrt (\<lambda>a b. b \<le> a) rs"
proof -
  assume "successively arc_step rs"
  then have "successively (\<lambda>a b. b \<le> a) rs"
    by (rule successively_weaken) (auto simp: arc_step_def)
  moreover have "transp (\<lambda>a b :: int. b \<le> a)" by (auto intro: transpI)
  ultimately show ?thesis by (simp add: successively_conv_sorted_wrt)
qed

text \<open>
  A 256 by 128 sweep canvas over the times 0 to 25600 with one pixel per doubling, and a
  success that starts at 0 and runs for 3 seconds: the steps \<open>t = 2\<close> and \<open>t = 3\<close> both visit
  the cell in column 0 of the centre row 64.
\<close>

lemma floor_log2_3: "\<lfloor>log 2 3 :: real\<rfloor> = 1"
  by (subst floor_log_eq_powr_iff) simp_all

lemma sweep_example_cells:
  assumes "NewSweep 256 128 0 25600 (Fin 1) 1 0 = Some v"
  shows "sweep_cells v \<lparr>Start = 0, Run = 3, Status = 0\<rparr> = [(0, 64), (0, 64)]"
proof -
  define e :: EventDataPoint where "e = \<lparr>Start = 0, Run = 3, Status = 0\<rparr>"
  note f = NewSweep_ok [OF assms]
  have ts: "sweep_times e = [0, 1, 2, 3]" unfolding e_def by code_simp
  have h: "sweep_h v sdiv 2 = 64" by (simp add: f)
  have x: "sweep_x v 2 = 0" "sweep_x v 3 = 0"
    unfolding sweep_x_def f by code_simp+
  have i: "int64 64 = 64" "int64 63 = 63" by code_simp+
  have t3: "trunc (log 2 3) = 1" using floor_log2_3 by (simp add: trunc_def)
  have g: "go_int (Fin 0) = 0" "go_int (Fin 1) = 1" "go_int (Fin (log 2 3)) = 1"
    by (simp_all add: go_int_def t3 is_int64_def) (simp_all add: trunc_def)
  have y: "sweep_yMin v e 0 = 64" "sweep_yMin v e 1 = 64" "sweep_yMin v e 2 = 63"
    "sweep_yMin v e 3 = 63"
    by (simp_all add: sweep_yMin_def f e_def f64_of_int_def f64_sub_def g i)
  have r: "rev [64 .. 64 :: int] = [64]" by simp
  show ?thesis
    unfolding e_def [symmetric]
    by (simp add: sweep_cells_def ts h x y walk_cells r)
qed

lemma NewSweep_example: "\<exists>v. NewSweep 256 128 0 25600 (Fin 1) 1 0 = Some v"
proof -
  have "grid_ystep 128 (Fin 1) = 128"
    by (simp add: grid_ystep_def f64_of_int_def go_int_def trunc_def is_int64_def)
  then have "NewSweep 256 128 0 25600 (Fin 1) 1 0 \<noteq> None"
    by (subst NewSweep_returns_iff) simp_all
  then show ?thesis by blast
qed

section \<open>Mirrored pixels\<close>

lemma int64_cong: "int64 k mod 2 ^ 64 = k mod 2 ^ 64"
proof -
  have "int64 k mod 2 ^ 64 = ((k + 2 ^ 63) mod 2 ^ 64 - 2 ^ 63 mod 2 ^ 64) mod 2 ^ 64"
    unfolding int64_def by (simp add: mod_diff_right_eq)
  also have "\<dots> = (k + 2 ^ 63 - 2 ^ 63) mod 2 ^ 64"
    by (rule mod_diff_eq)
  finally show ?thesis by simp
qed

lemma int64_wrapped_negative:
  assumes "2 ^ 63 \<le> k" and "k < 2 ^ 64"
  shows "int64 k < 0"
proof (rule ccontr)
  assume "\<not> int64 k < 0"
  then have r: "0 \<le> int64 k" "int64 k < 2 ^ 64"
    using is_int64_int64 [of k] by (simp_all add: is_int64_def)
  have "int64 k = int64 k mod 2 ^ 64" using r by simp
  also have "\<dots> = k mod 2 ^ 64" by (rule int64_cong)
  also have "\<dots> = k" using assms by simp
  finally show False using is_int64_int64 [of k] assms by (simp add: is_int64_def)
qed

subsection \<open>The rows a sweep paints\<close>

lemma fold_cells_bounds:
  assumes "\<And>t. - (2 ^ 63) \<le> yMin t" and "y \<le> y0"
    and "\<And>c. c \<in> set cs \<Longrightarrow> - (2 ^ 63) < snd c \<and> snd c \<le> y0"
    and "c \<in> set (snd (fold (\<lambda>t (y, cs). walk (\<lambda>y' cs. cs @ [(xf t, y')]) (yMin t) y (y, cs))
                            ts (y, cs)))"
  shows "- (2 ^ 63) < snd c \<and> snd c \<le> y0"
  using assms(2-4)
proof (induction ts arbitrary: y cs)
  case Nil
  then show ?case by simp
next
  case (Cons t ts)
  show ?case
  proof (cases "yMin t < y")
    case False
    then have "c \<in> set (snd (fold (\<lambda>t (y, cs). walk (\<lambda>y' cs. cs @ [(xf t, y')]) (yMin t) y
                                     (y, cs)) ts (y, cs)))"
      using Cons.prems(3) by (simp add: walk_cells)
    from Cons.IH [OF Cons.prems(1,2) this] show ?thesis .
  next
    case True
    define cs' where "cs' = cs @ map (Pair (xf t)) (rev [yMin t + 1 .. y])"
    have m: "c \<in> set (snd (fold (\<lambda>t (y, cs). walk (\<lambda>y' cs. cs @ [(xf t, y')]) (yMin t) y
                                   (y, cs)) ts (yMin t + 1, cs')))"
      using Cons.prems(3) True by (simp add: walk_cells cs'_def)
    have b: "- (2 ^ 63) < snd d \<and> snd d \<le> y0" if "d \<in> set cs'" for d
    proof (cases "d \<in> set cs")
      case True
      then show ?thesis by (rule Cons.prems(2))
    next
      case False
      then have "yMin t + 1 \<le> snd d \<and> snd d \<le> y"
        using that by (auto simp: cs'_def)
      then show ?thesis using Cons.prems(1) assms(1) [of t] by linarith
    qed
    show ?thesis
      by (rule Cons.IH [OF _ b m]) (use True Cons.prems(1) in simp)
  qed
qed

lemma sweep_cells_rows:
  assumes "(x, y) \<in> set (sweep_cells v e)"
  shows "- (2 ^ 63) < y" and "y \<le> sweep_h v sdiv 2"
proof -
  have lo: "- (2 ^ 63) \<le> sweep_yMin v e t" for t
    using is_int64_int64 by (simp add: sweep_yMin_def is_int64_def)
  have "- (2 ^ 63) < snd (x, y) \<and> snd (x, y) \<le> sweep_h v sdiv 2"
    by (rule fold_cells_bounds [where yMin = "sweep_yMin v e" and xf = "sweep_x v"
          and ts = "sweep_times e" and y = "sweep_h v sdiv 2" and cs = "[]"])
      (use lo assms in \<open>simp_all add: sweep_cells_def\<close>)
  then show "- (2 ^ 63) < y" and "y \<le> sweep_h v sdiv 2" by simp_all
qed

subsection \<open>Pixels a Record call leaves alone\<close>

lemma canvas_ok_sweep_paint: "canvas_ok rc i \<Longrightarrow> canvas_ok rc (sweep_paint v e x y i)"
  by (simp add: sweep_paint_def canvas_ok_paint)

lemma fold_success_frame:
  assumes "Status e = 0" and "canvas_ok rc i"
    and "\<And>x y. (x, y) \<in> set cs \<Longrightarrow> (px, py) \<noteq> (x, y)"
  shows "RGBAAt (fold (\<lambda>(x, y). sweep_paint v e x y) cs i) px py = RGBAAt i px py"
  using assms(2,3)
proof (induction cs arbitrary: i)
  case Nil
  show ?case by simp
next
  case (Cons c cs)
  obtain x y where c: "c = (x, y)" by (cases c)
  have wf: "wf_image i" using Cons.prems(1) by (simp add: canvas_ok_def)
  have ne: "(px, py) \<noteq> (x, y)" using Cons.prems(2) [of x y] c by simp
  have "RGBAAt (sweep_paint v e x y i) px py = RGBAAt i px py"
    using assms(1) ne by (auto simp: sweep_paint_def RGBAAt_paint_success [OF wf])
  moreover have "RGBAAt (fold (\<lambda>(x, y). sweep_paint v e x y) cs (sweep_paint v e x y i)) px py
                 = RGBAAt (sweep_paint v e x y i) px py"
    by (rule Cons.IH) (use Cons.prems canvas_ok_sweep_paint in auto)
  ultimately show ?case by (simp add: c)
qed

lemma fold_failure_frame:
  assumes "Status e \<noteq> 0" and "canvas_ok rc i"
    and "\<And>x y. (x, y) \<in> set cs \<Longrightarrow>
           (px, py) \<noteq> (x, int64 (sweep_h v - y))
           \<or> \<not> point_In \<lparr>X = x, Y = int64 (sweep_h v - y)\<rparr> rc"
  shows "RGBAAt (fold (\<lambda>(x, y). sweep_paint v e x y) cs i) px py = RGBAAt i px py"
  using assms(2,3)
proof (induction cs arbitrary: i)
  case Nil
  show ?case by simp
next
  case (Cons c cs)
  obtain x y where c: "c = (x, y)" by (cases c)
  have wf: "wf_image i" and rc: "Rect i = rc" using Cons.prems(1) by (simp_all add: canvas_ok_def)
  have ne: "(px, py) \<noteq> (x, int64 (sweep_h v - y))
            \<or> \<not> point_In \<lparr>X = x, Y = int64 (sweep_h v - y)\<rparr> (Rect i)"
    using Cons.prems(2) [of x y] c rc by simp
  have "RGBAAt (sweep_paint v e x y i) px py = RGBAAt i px py"
    using assms(1) ne by (auto simp: sweep_paint_def RGBAAt_paint_failure [OF wf])
  moreover have "RGBAAt (fold (\<lambda>(x, y). sweep_paint v e x y) cs (sweep_paint v e x y i)) px py
                 = RGBAAt (sweep_paint v e x y i) px py"
    by (rule Cons.IH) (use Cons.prems canvas_ok_sweep_paint in auto)
  ultimately show ?case by (simp add: c)
qed

lemma sweep_success_frame:
  assumes "Status e = 0" and "canvas_ok rc (sweep_vis v)" and "sweep_h v sdiv 2 < py"
  shows "RGBAAt (sweep_vis (sweep_Record v e)) px py = RGBAAt (sweep_vis v) px py"
  unfolding sweep_Record_cells
  by (rule fold_success_frame [OF assms(1,2)]) (use sweep_cells_rows(2) assms(3) in fastforce)

lemma sweep_failure_frame:
  assumes "Status e \<noteq> 0" and "canvas_ok (image_Rect 0 0 width (sweep_h v)) (sweep_vis v)"
    and "0 \<le> sweep_h v" and "sweep_h v < 2 ^ 63" and "py < sweep_h v - sweep_h v sdiv 2"
  shows "RGBAAt (sweep_vis (sweep_Record v e)) px py = RGBAAt (sweep_vis v) px py"
  unfolding sweep_Record_cells
proof (rule fold_failure_frame [OF assms(1,2)])
  fix x y
  assume c: "(x, y) \<in> set (sweep_cells v e)"
  note b = sweep_cells_rows [OF c]
  show "(px, py) \<noteq> (x, int64 (sweep_h v - y))
        \<or> \<not> point_In \<lparr>X = x, Y = int64 (sweep_h v - y)\<rparr> (image_Rect 0 0 width (sweep_h v))"
  proof (cases "sweep_h v - y < 2 ^ 63")
    case True
    have "sweep_h v sdiv 2 = sweep_h v div 2"
      using assms(3) by (simp add: signed_divide_int_def sgn_if)
    then have "sweep_h v sdiv 2 \<le> sweep_h v"
      using assms(3) by linarith
    then have "is_int64 (sweep_h v - y)"
      using True b assms(3) by (simp add: is_int64_def)
    then have "int64 (sweep_h v - y) = sweep_h v - y" by (rule int64_id)
    then show ?thesis using b(2) assms(5) by auto
  next
    case False
    have "int64 (sweep_h v - y) < 0"
      by (rule int64_wrapped_negative) (use False b(1) assms(4) in auto)
    then show ?thesis using assms(3) by (simp add: point_In_def image_Rect_def)
  qed
qed

lemma scatter_Record_frame:
  assumes "wf_image (scatter_vis v)" and "(px, py) \<noteq> (scatter_x v e, scatter_y v e)"
  shows "RGBAAt (scatter_vis (scatter_Record v e)) px py = RGBAAt (scatter_vis v) px py"
  using assms(2)
  by (auto simp: scatter_Record_def Let_def RGBAAt_paint_success [OF assms(1)]
      RGBAAt_paint_failure [OF assms(1)])

lemma mirror_rows:
  assumes "0 \<le> (h :: int)" and "y \<le> h sdiv 2" and "y \<noteq> h - y"
  shows "h sdiv 2 < h - y" and "y < h - h sdiv 2"
proof -
  have "h sdiv 2 = h div 2" using assms(1) by (simp add: signed_divide_int_def sgn_if)
  then show "h sdiv 2 < h - y" and "y < h - h sdiv 2" using assms by linarith+
qed

text \<open>
  C6, as the code has it. On a sweep canvas of height \<open>h \<ge> 0\<close>, take a row \<open>y\<close> on the
  success side (every cell of a success arc has \<open>y \<le> h / 2\<close>) other than the centre row
  that is its own mirror image (\<open>y \<noteq> h - y\<close>): recording a success leaves the mirrored
  pixel \<open>(x, h - y)\<close> unchanged, and recording a failure leaves the pixel \<open>(x, y)\<close>
  unchanged. A scatter \<open>Record\<close> writes the one pixel of its event, so a success at row
  \<open>y\<close> and a failure at row \<open>h - y \<noteq> y\<close> leave each other's pixel unchanged.
\<close>

theorem mirrored_pixels_independent:
  "((x, y) \<in> set (sweep_cells v e) \<longrightarrow> y \<le> sweep_h v sdiv 2)
   \<and> (canvas_ok (image_Rect 0 0 width (sweep_h v)) (sweep_vis v) \<and>
       0 \<le> sweep_h v \<and> sweep_h v < 2 ^ 63 \<and>
       Status s = 0 \<and> Status f \<noteq> 0 \<and> y \<le> sweep_h v sdiv 2 \<and> y \<noteq> sweep_h v - y \<longrightarrow>
         RGBAAt (sweep_vis (sweep_Record v s)) x (sweep_h v - y)
           = RGBAAt (sweep_vis v) x (sweep_h v - y) \<and>
         RGBAAt (sweep_vis (sweep_Record v f)) x y = RGBAAt (sweep_vis v) x y)
   \<and> (wf_image (scatter_vis u) \<and> Status s = 0 \<and> Status f \<noteq> 0 \<and>
       scatter_y u f = scatter_h u - scatter_y u s \<and>
       scatter_y u s \<noteq> scatter_h u - scatter_y u s \<longrightarrow>
         RGBAAt (scatter_vis (scatter_Record u s)) (scatter_x u f) (scatter_y u f)
           = RGBAAt (scatter_vis u) (scatter_x u f) (scatter_y u f) \<and>
         RGBAAt (scatter_vis (scatter_Record u f)) (scatter_x u s) (scatter_y u s)
           = RGBAAt (scatter_vis u) (scatter_x u s) (scatter_y u s))"
proof (intro conjI impI)
  show "y \<le> sweep_h v sdiv 2" if "(x, y) \<in> set (sweep_cells v e)"
    using that by (rule sweep_cells_rows(2))
next
  assume a: "canvas_ok (image_Rect 0 0 width (sweep_h v)) (sweep_vis v) \<and>
             0 \<le> sweep_h v \<and> sweep_h v < 2 ^ 63 \<and>
             Status s = 0 \<and> Status f \<noteq> 0 \<and> y \<le> sweep_h v sdiv 2 \<and> y \<noteq> sweep_h v - y"
  then have m: "sweep_h v sdiv 2 < sweep_h v - y" "y < sweep_h v - sweep_h v sdiv 2"
    using mirror_rows [of "sweep_h v" y] by simp_all
  show "RGBAAt (sweep_vis (sweep_Record v s)) x (sweep_h v - y)
          = RGBAAt (sweep_vis v) x (sweep_h v - y)"
    by (rule sweep_success_frame [OF _ _ m(1)]) (use a in auto)
  show "RGBAAt (sweep_vis (sweep_Record v f)) x y = RGBAAt (sweep_vis v) x y"
    by (rule sweep_failure_frame [OF _ _ _ _ m(2)]) (use a in auto)
next
  assume a: "wf_image (scatter_vis u) \<and> Status s = 0 \<and> Status f \<noteq> 0 \<and>
             scatter_y u f = scatter_h u - scatter_y u s \<and>
             scatter_y u s \<noteq> scatter_h u - scatter_y u s"
  show "RGBAAt (scatter_vis (scatter_Record u s)) (scatter_x u f) (scatter_y u f)
          = RGBAAt (scatter_vis u) (scatter_x u f) (scatter_y u f)"
    by (rule scatter_Record_frame) (use a in auto)
  show "RGBAAt (scatter_vis (scatter_Record u f)) (scatter_x u s) (scatter_y u s)
          = RGBAAt (scatter_vis u) (scatter_x u s) (scatter_y u s)"
    by (rule scatter_Record_frame) (use a in auto)
qed

lemma log2_128: "log 2 128 = (7 :: real)"
proof -
  have "log 2 ((2 :: real) ^ 7) = 7" by (subst log_nat_power) simp_all
  then show ?thesis by simp
qed

lemma NewScatter_example: "\<exists>u. NewScatter 256 128 0 25600 (Fin 16) 1 0 = Some u"
proof -
  have "NewScatter 256 128 0 25600 (Fin 16) 1 0 \<noteq> None"
    by (subst NewScatter_returns_iff) (simp_all add: grid_ystep_128_16)
  then show ?thesis by blast
qed

theorem mirrored_pixels_independent_witness:
  "(\<exists>v. NewSweep 256 128 0 25600 (Fin 1) 1 0 = Some v \<and>
        (0, 64) \<in> set (sweep_cells v \<lparr>Start = 0, Run = 3, Status = 0\<rparr>) \<and>
        (64 :: int) \<le> sweep_h v sdiv 2 \<and>
        RGBAAt (sweep_vis (sweep_Record v \<lparr>Start = 0, Run = 3, Status = 0\<rparr>)) 0 (sweep_h v - 63)
          = RGBAAt (sweep_vis v) 0 (sweep_h v - 63) \<and>
        RGBAAt (sweep_vis (sweep_Record v \<lparr>Start = 0, Run = 3, Status = 1\<rparr>)) 0 63
          = RGBAAt (sweep_vis v) 0 63) \<and>
   (\<exists>u. NewScatter 256 128 0 25600 (Fin 16) 1 0 = Some u \<and>
        scatter_y u \<lparr>Start = 0, Run = 2, Status = 0\<rparr> = 112 \<and>
        scatter_y u \<lparr>Start = 0, Run = 128, Status = 1\<rparr> = 16 \<and>
        RGBAAt (scatter_vis (scatter_Record u \<lparr>Start = 0, Run = 2, Status = 0\<rparr>))
            (scatter_x u \<lparr>Start = 0, Run = 128, Status = 1\<rparr>) 16
          = RGBAAt (scatter_vis u) (scatter_x u \<lparr>Start = 0, Run = 128, Status = 1\<rparr>) 16 \<and>
        RGBAAt (scatter_vis (scatter_Record u \<lparr>Start = 0, Run = 128, Status = 1\<rparr>))
            (scatter_x u \<lparr>Start = 0, Run = 2, Status = 0\<rparr>) 112
          = RGBAAt (scatter_vis u) (scatter_x u \<lparr>Start = 0, Run = 2, Status = 0\<rparr>) 112)"
proof
  obtain v where v: "NewSweep 256 128 0 25600 (Fin 1) 1 0 = Some v"
    using NewSweep_example by blast
  note f = NewSweep_ok [OF v]
  define s f' :: EventDataPoint where "s = \<lparr>Start = 0, Run = 3, Status = 0\<rparr>"
    and "f' = \<lparr>Start = 0, Run = 3, Status = 1\<rparr>"
  have c: "(0, 64) \<in> set (sweep_cells v s)"
    by (simp add: s_def sweep_example_cells [OF v])
  have h: "canvas_ok (image_Rect 0 0 256 (sweep_h v)) (sweep_vis v) \<and>
           0 \<le> sweep_h v \<and> sweep_h v < 2 ^ 63 \<and>
           Status s = 0 \<and> Status f' \<noteq> 0 \<and> 63 \<le> sweep_h v sdiv 2 \<and> 63 \<noteq> sweep_h v - 63"
    using f(1) by (simp add: f(3) s_def f'_def)
  note t = mirrored_pixels_independent [of 0 64 v s 256 s f']
  have t1: "(64 :: int) \<le> sweep_h v sdiv 2" using t c by blast
  note t' = mirrored_pixels_independent [of 0 63 v s 256 s f']
  have t2: "RGBAAt (sweep_vis (sweep_Record v s)) 0 (sweep_h v - 63)
             = RGBAAt (sweep_vis v) 0 (sweep_h v - 63) \<and>
            RGBAAt (sweep_vis (sweep_Record v f')) 0 63 = RGBAAt (sweep_vis v) 0 63"
    using t' h by blast
  show "\<exists>v. NewSweep 256 128 0 25600 (Fin 1) 1 0 = Some v \<and>
        (0, 64) \<in> set (sweep_cells v \<lparr>Start = 0, Run = 3, Status = 0\<rparr>) \<and>
        (64 :: int) \<le> sweep_h v sdiv 2 \<and>
        RGBAAt (sweep_vis (sweep_Record v \<lparr>Start = 0, Run = 3, Status = 0\<rparr>)) 0 (sweep_h v - 63)
          = RGBAAt (sweep_vis v) 0 (sweep_h v - 63) \<and>
        RGBAAt (sweep_vis (sweep_Record v \<lparr>Start = 0, Run = 3, Status = 1\<rparr>)) 0 63
          = RGBAAt (sweep_vis v) 0 63"
    using v c t1 t2 unfolding s_def f'_def by blast
next
  obtain u where u: "NewScatter 256 128 0 25600 (Fin 16) 1 0 = Some u"
    using NewScatter_example by blast
  note f = NewScatter_ok [OF u]
  define s f' :: EventDataPoint where "s = \<lparr>Start = 0, Run = 2, Status = 0\<rparr>"
    and "f' = \<lparr>Start = 0, Run = 128, Status = 1\<rparr>"
  have g: "go_int (Fin 16) = 16" "go_int (Fin 112) = 112"
    by (simp_all add: go_int_def is_int64_def trunc_def)
  have i: "int64 112 = 112" "int64 16 = 16" by code_simp+
  have ys: "scatter_y u s = 112"
    by (simp add: scatter_y_def f s_def f64_of_int_def g i)
  have yf: "scatter_y u f' = 16"
    by (simp add: scatter_y_def f f'_def f64_of_int_def log2_128 g i)
  have h: "wf_image (scatter_vis u) \<and> Status s = 0 \<and> Status f' \<noteq> 0 \<and>
           scatter_y u f' = scatter_h u - scatter_y u s \<and>
           scatter_y u s \<noteq> scatter_h u - scatter_y u s"
    using f(1) ys yf by (simp add: canvas_ok_def f(3) s_def f'_def)
  note t = mirrored_pixels_independent [where u = u and s = s and f = f']
  have "RGBAAt (scatter_vis (scatter_Record u s)) (scatter_x u f') (scatter_y u f')
          = RGBAAt (scatter_vis u) (scatter_x u f') (scatter_y u f') \<and>
        RGBAAt (scatter_vis (scatter_Record u f')) (scatter_x u s) (scatter_y u s)
          = RGBAAt (scatter_vis u) (scatter_x u s) (scatter_y u s)"
    using t h by blast
  then show "\<exists>u. NewScatter 256 128 0 25600 (Fin 16) 1 0 = Some u \<and>
        scatter_y u \<lparr>Start = 0, Run = 2, Status = 0\<rparr> = 112 \<and>
        scatter_y u \<lparr>Start = 0, Run = 128, Status = 1\<rparr> = 16 \<and>
        RGBAAt (scatter_vis (scatter_Record u \<lparr>Start = 0, Run = 2, Status = 0\<rparr>))
            (scatter_x u \<lparr>Start = 0, Run = 128, Status = 1\<rparr>) 16
          = RGBAAt (scatter_vis u) (scatter_x u \<lparr>Start = 0, Run = 128, Status = 1\<rparr>) 16 \<and>
        RGBAAt (scatter_vis (scatter_Record u \<lparr>Start = 0, Run = 128, Status = 1\<rparr>))
            (scatter_x u \<lparr>Start = 0, Run = 2, Status = 0\<rparr>) 112
          = RGBAAt (scatter_vis u) (scatter_x u \<lparr>Start = 0, Run = 2, Status = 0\<rparr>) 112"
    using u ys yf unfolding s_def f'_def by auto
qed

text \<open>
  On a sweep canvas of height 2 the centre row 1 is its own mirror image. A success that
  starts at 0 and runs for 2 seconds paints the cell \<open>(0, 1)\<close>; the failure with the same
  times paints \<open>(0, 2 - 1)\<close>, the same pixel, and each changes what the other reads.
\<close>

lemma sweep_yloop_unfold:
  "y < height \<Longrightarrow> sweep_yloop height step y vis
     = sweep_yloop height step (int64 (y + step))
         (drawYGridLine (drawYGridLine vis y) (int64 (height - y)))"
  by (subst sweep_yloop.simps) simp

lemma NewSweep_1_2:
  "NewSweep 1 2 0 4 (Fin 1) 1 0 =
     Some \<lparr>sweep_w = 1, sweep_h = 2,
           sweep_vis = \<lparr>Pix = [45, 45, 45, 255, 45, 45, 45, 255], Stride = 4,
                         Rect = image_Rect 0 0 1 2\<rparr>,
           sweep_tA = Fin 0, sweep_tOmega = Fin 4, sweep_yLog2 = Fin 1,
           sweep_cDelta = Fin 255\<rparr>"
proof -
  have s: "grid_ystep 2 (Fin 1) = 2" by code_simp
  have i: "int64 3 = 3" "int64 1 = 1" by code_simp+
  have d: "drawYGridLine (drawYGridLine (drawYGridLine (initializeVisualization 1 2) 1) 1) 0
           = \<lparr>Pix = [45, 45, 45, 255, 45, 45, 45, 255], Stride = 4, Rect = image_Rect 0 0 1 2\<rparr>"
    by code_simp
  have "sweep_yloop 2 2 1 (initializeVisualization 1 2)
        = Some (drawYGridLine (drawYGridLine (initializeVisualization 1 2) 1) 1)"
    by (simp add: sweep_yloop_unfold i sweep_yloop_not_entered)
  then show ?thesis
    by (simp add: NewSweep_def sweep_drawGrid_def grid_xlines_def s d f64_of_int_def)
qed

theorem centerline_shared_counterexample:
  "\<exists>v. NewSweep 1 2 0 4 (Fin 1) 1 0 = Some v \<and> sweep_h v = 2 \<and>
       (0, 1) \<in> set (sweep_cells v \<lparr>Start = 0, Run = 2, Status = 0\<rparr>) \<and>
       (0, 1) \<in> set (sweep_cells v \<lparr>Start = 0, Run = 2, Status = 1\<rparr>) \<and>
       RGBAAt (sweep_vis v) 0 (2 - 1) = \<lparr>R = 45, G = 45, B = 45, A = 255\<rparr> \<and>
       RGBAAt (sweep_vis (sweep_Record v \<lparr>Start = 0, Run = 2, Status = 0\<rparr>)) 0 (2 - 1)
         = \<lparr>R = 108, G = 108, B = 255, A = 255\<rparr> \<and>
       RGBAAt (sweep_vis (sweep_Record v \<lparr>Start = 0, Run = 2, Status = 1\<rparr>)) 0 1
         = \<lparr>R = 255, G = 45, B = 45, A = 255\<rparr>"
proof -
  define v where "v = \<lparr>sweep_w = 1, sweep_h = 2,
           sweep_vis = \<lparr>Pix = [45, 45, 45, 255, 45, 45, 45, 255], Stride = 4,
                         Rect = image_Rect 0 0 1 2\<rparr>,
           sweep_tA = Fin 0, sweep_tOmega = Fin 4, sweep_yLog2 = Fin 1,
           sweep_cDelta = Fin 255\<rparr>"
  define s f :: EventDataPoint where "s = \<lparr>Start = 0, Run = 2, Status = 0\<rparr>"
    and "f = \<lparr>Start = 0, Run = 2, Status = 1\<rparr>"
  have ts: "sweep_times s = [0, 1, 2]" "sweep_times f = [0, 1, 2]"
    unfolding s_def f_def by code_simp+
  have x: "sweep_x v 2 = 0" unfolding v_def by code_simp
  have g: "go_int (Fin 0) = 0" "go_int (Fin 1) = 1"
    by (simp_all add: go_int_def is_int64_def trunc_def)
  have i: "int64 1 = 1" "int64 0 = 0" by code_simp+
  have h: "sweep_h v sdiv 2 = 1" by (simp add: v_def)
  have y: "sweep_yMin v e 0 = 1 \<and> sweep_yMin v e 1 = 1 \<and> sweep_yMin v e 2 = 0"
    if "Start e = 0" for e
    using that by (simp add: sweep_yMin_def v_def f64_of_int_def f64_sub_def g i)
  have r: "rev [1 .. 1 :: int] = [1]" by simp
  have st: "Start s = 0" "Start f = 0" by (simp_all add: s_def f_def)
  note ys = y [OF st(1)] and yf = y [OF st(2)]
  have cs: "sweep_cells v s = [(0, 1)]" "sweep_cells v f = [(0, 1)]"
    by (simp_all add: sweep_cells_def ts h x walk_cells r ys yf)
  have ps: "sweep_paint v s 0 1 (sweep_vis v)
            = \<lparr>Pix = [45, 45, 45, 255, 108, 108, 255, 255], Stride = 4,
               Rect = image_Rect 0 0 1 2\<rparr>"
    unfolding v_def s_def by code_simp
  have pf: "sweep_paint v f 0 1 (sweep_vis v)
            = \<lparr>Pix = [45, 45, 45, 255, 255, 45, 45, 255], Stride = 4,
               Rect = image_Rect 0 0 1 2\<rparr>"
    unfolding v_def f_def by code_simp
  have a0: "RGBAAt (sweep_vis v) 0 (2 - 1) = \<lparr>R = 45, G = 45, B = 45, A = 255\<rparr>"
    unfolding v_def by code_simp
  have a1: "RGBAAt \<lparr>Pix = [45, 45, 45, 255, 108, 108, 255, 255], Stride = 4,
               Rect = image_Rect 0 0 1 2\<rparr> 0 (2 - 1) = \<lparr>R = 108, G = 108, B = 255, A = 255\<rparr>"
    by code_simp
  have a2: "RGBAAt \<lparr>Pix = [45, 45, 45, 255, 255, 45, 45, 255], Stride = 4,
               Rect = image_Rect 0 0 1 2\<rparr> 0 1 = \<lparr>R = 255, G = 45, B = 45, A = 255\<rparr>"
    by code_simp
  have rs: "RGBAAt (sweep_vis (sweep_Record v s)) 0 (2 - 1)
            = \<lparr>R = 108, G = 108, B = 255, A = 255\<rparr>"
    by (simp only: sweep_Record_cells cs fold.simps id_apply comp_apply prod.case ps a1)
  have rf: "RGBAAt (sweep_vis (sweep_Record v f)) 0 1 = \<lparr>R = 255, G = 45, B = 45, A = 255\<rparr>"
    by (simp only: sweep_Record_cells cs fold.simps id_apply comp_apply prod.case pf a2)
  have hv: "sweep_h v = 2" by (simp add: v_def)
  show ?thesis
    using NewSweep_1_2 hv cs a0 rs rf
    unfolding v_def [symmetric] s_def [symmetric] f_def [symmetric] by simp
qed

section \<open>The painted arc of sweep.Record\<close>

lemma sweep_paint_blend: "sweep_paint v e x y = sweep_blend v e x (sweep_row v e y)"
  by (rule ext) (simp add: sweep_paint_def sweep_blend_def sweep_row_def)

lemma fold_snoc_map: "fold (\<lambda>y' ps. ps @ [f y']) ys ps = ps @ map f ys"
  by (induction ys arbitrary: ps) simp_all

lemma sweep_step_eq:
  "sweep_step v e t y =
     (if sweep_yMin v e t < y
      then (sweep_yMin v e t + 1,
            map (\<lambda>y'. (sweep_x v t, sweep_row v e y')) (rev [sweep_yMin v e t + 1 .. y]))
      else (y, []))"
  unfolding sweep_step_def walk_eq fold_snoc_map by simp

lemma length_sweep_walks: "length (sweep_walks v e ts y) = length ts"
  by (induction ts arbitrary: y) simp_all

lemma sweep_walks_cells:
  "map (\<lambda>(x, y). (x, sweep_row v e y))
     (snd (fold (\<lambda>t (y, cs). walk (\<lambda>y' cs. cs @ [(sweep_x v t, y')]) (sweep_yMin v e t) y (y, cs))
             ts (y0, cs0)))
   = map (\<lambda>(x, y). (x, sweep_row v e y)) cs0 @ concat (sweep_walks v e ts y0)"
proof (induction ts arbitrary: y0 cs0)
  case Nil
  show ?case by simp
next
  case (Cons t ts)
  show ?case
  proof (cases "sweep_yMin v e t < y0")
    case True
    show ?thesis
      using True Cons.IH [of "sweep_yMin v e t + 1"
          "cs0 @ map (Pair (sweep_x v t)) (rev [sweep_yMin v e t + 1 .. y0])"]
      by (simp add: walk_cells sweep_step_eq comp_def)
  next
    case False
    show ?thesis
      using False Cons.IH [of y0 cs0] by (simp add: walk_cells sweep_step_eq)
  qed
qed

lemma sweep_pixels_cells:
  "concat (sweep_pixels v e) = map (\<lambda>(x, y). (x, sweep_row v e y)) (sweep_cells v e)"
  using sweep_walks_cells [of v e "sweep_times e" "sweep_h v sdiv 2" "[]"]
  by (simp add: sweep_pixels_def sweep_cells_def)

lemma sweep_Record_pixels:
  "sweep_vis (sweep_Record v e) =
     fold (\<lambda>(x, r). sweep_blend v e x r) (concat (sweep_pixels v e)) (sweep_vis v)"
proof -
  have "(\<lambda>(x, r). sweep_blend v e x r) \<circ> (\<lambda>(x, y). (x, sweep_row v e y))
          = (\<lambda>(x, y). sweep_paint v e x y)"
    by (rule ext) (simp add: sweep_paint_blend split: prod.splits)
  then show ?thesis
    by (simp add: sweep_Record_cells sweep_pixels_cells fold_map)
qed

lemma sweep_pixel_rows:
  "map snd (concat (sweep_pixels v e)) = map (sweep_row v e) (map snd (sweep_cells v e))"
  by (simp add: sweep_pixels_cells comp_def split: prod.splits)

lemma int64_eqI: "a mod 2 ^ 64 = b mod 2 ^ 64 \<Longrightarrow> int64 a = int64 b"
proof -
  assume "a mod 2 ^ 64 = b mod (2 ^ 64 :: int)"
  then have "(a + 2 ^ 63) mod 2 ^ 64 = (b + 2 ^ 63) mod (2 ^ 64 :: int)"
    by (rule mod_add_cong) simp
  then show ?thesis by (simp add: int64_def)
qed

lemma sweep_row_up: "sweep_row v e (a - 1) = row_beyond e (sweep_row v e a)"
proof (cases "Status e = 0")
  case True
  then show ?thesis by (simp add: sweep_row_def row_beyond_def)
next
  case False
  have "(int64 (sweep_h v - a) + 1) mod 2 ^ 64 = (sweep_h v - a + 1) mod 2 ^ 64"
    using int64_cong [of "sweep_h v - a"] by (rule mod_add_cong) simp
  then have "int64 (int64 (sweep_h v - a) + 1) = int64 (sweep_h v - a + 1)"
    by (rule int64_eqI)
  moreover have "int64 (sweep_h v - (a - 1)) = int64 (sweep_h v - a + 1)"
    by (rule arg_cong [where f = int64]) simp
  ultimately show ?thesis using False by (simp only: sweep_row_def row_beyond_def if_False)
qed

lemma sweep_row_inj:
  assumes "sweep_row v e a = sweep_row v e b"
    and "- (2 ^ 63) \<le> a" "a < 2 ^ 63" "- (2 ^ 63) \<le> b" "b < 2 ^ 63"
  shows "a = b"
proof (cases "Status e = 0")
  case True
  then show ?thesis using assms(1) by (simp add: sweep_row_def)
next
  case False
  then have "int64 (sweep_h v - a) = int64 (sweep_h v - b)"
    using assms(1) by (simp add: sweep_row_def)
  then have "int64 (sweep_h v - a) mod 2 ^ 64 = int64 (sweep_h v - b) mod 2 ^ 64" by simp
  then have "(sweep_h v - a) mod 2 ^ 64 = (sweep_h v - b) mod 2 ^ 64"
    by (simp only: int64_cong)
  then have "(2 ^ 64 :: int) dvd (sweep_h v - a) - (sweep_h v - b)"
    by (simp only: mod_eq_dvd_iff)
  then have d: "(2 ^ 64 :: int) dvd b - a" by simp
  define k where "k = b - a"
  have k: "- (2 ^ 64) < k" "k < 2 ^ 64" using assms(2-5) by (simp_all add: k_def)
  have "k = 0"
  proof (rule ccontr)
    assume "k \<noteq> 0"
    then have "(2 ^ 64 :: int) \<le> \<bar>k\<bar>"
      using d dvd_imp_le_int [of k "2 ^ 64"] unfolding k_def [symmetric] by simp
    then show False using k by simp
  qed
  then show ?thesis by (simp add: k_def)
qed

lemma rev_upto_down: "successively (\<lambda>a b. b = a - 1) (rev [i .. j])"
proof -
  have "successively (\<lambda>a b. a = b + 1) (rev [i .. j])"
    unfolding successively_rev by (rule successively_upto)
  then show ?thesis by (rule successively_weaken) simp
qed

lemma sweep_step_rows:
  "successively (\<lambda>a b. b = row_beyond e a) (map snd (snd (sweep_step v e t y)))"
proof -
  have "successively (\<lambda>a b. sweep_row v e b = row_beyond e (sweep_row v e a)) (rev [i .. j])"
    for i j
    using rev_upto_down [of i j] by (rule successively_weaken) (simp add: sweep_row_up)
  then show ?thesis
    by (simp add: sweep_step_eq comp_def successively_map)
qed

lemma sweep_step_distinct:
  assumes "y < 2 ^ 63"
  shows "distinct (map snd (snd (sweep_step v e t y)))"
proof (cases "sweep_yMin v e t < y")
  case False
  then show ?thesis by (simp add: sweep_step_eq)
next
  case True
  have lo: "- (2 ^ 63) \<le> sweep_yMin v e t"
    using is_int64_int64 unfolding sweep_yMin_def is_int64_def by blast
  have "inj_on (sweep_row v e) (set (rev [sweep_yMin v e t + 1 .. y]))"
    by (rule inj_onI, rule sweep_row_inj) (use lo assms in auto)
  then have "distinct (map (sweep_row v e) (rev [sweep_yMin v e t + 1 .. y]))"
    by (simp add: distinct_map)
  then show ?thesis using True by (simp add: sweep_step_eq comp_def)
qed

lemma sweep_step_row_bound: "y < 2 ^ 63 \<Longrightarrow> fst (sweep_step v e t y) < 2 ^ 63"
  by (simp add: sweep_step_eq)

lemma sweep_walks_rows:
  assumes "w \<in> set (sweep_walks v e ts y)"
  shows "successively (\<lambda>a b. b = row_beyond e a) (map snd w)"
  using assms by (induction ts arbitrary: y) (auto simp: sweep_step_rows)

lemma sweep_walks_distinct:
  assumes "y < 2 ^ 63" and "w \<in> set (sweep_walks v e ts y)"
  shows "distinct (map snd w)"
  using assms
proof (induction ts arbitrary: y)
  case Nil
  then show ?case by simp
next
  case (Cons t ts)
  from Cons.prems(2) consider "w = snd (sweep_step v e t y)"
    | "w \<in> set (sweep_walks v e ts (fst (sweep_step v e t y)))" by auto
  then show ?case
  proof cases
    case 1
    then show ?thesis using sweep_step_distinct [OF Cons.prems(1)] by simp
  next
    case 2
    show ?thesis by (rule Cons.IH [OF sweep_step_row_bound [OF Cons.prems(1)] 2])
  qed
qed

lemma sweep_walks_first:
  assumes "filter (\<lambda>w. w \<noteq> []) (sweep_walks v e ts y) \<noteq> []"
  shows "snd (hd (hd (filter (\<lambda>w. w \<noteq> []) (sweep_walks v e ts y)))) = sweep_row v e y"
  using assms
proof (induction ts arbitrary: y)
  case Nil
  then show ?case by simp
next
  case (Cons t ts)
  show ?case
  proof (cases "sweep_yMin v e t < y")
    case False
    then show ?thesis using Cons.IH [of y] Cons.prems by (simp add: sweep_step_eq)
  next
    case True
    then have "rev [sweep_yMin v e t + 1 .. y] \<noteq> []" by simp
    moreover have "hd (rev [sweep_yMin v e t + 1 .. y]) = y"
      using True by (intro hd_last_rev_upto) simp
    ultimately show ?thesis using True by (simp add: sweep_step_eq hd_map)
  qed
qed

lemma sweep_walks_linked:
  "successively (\<lambda>w w'. snd (hd w') = snd (last w))
     (filter (\<lambda>w. w \<noteq> []) (sweep_walks v e ts y))"
proof (induction ts arbitrary: y)
  case Nil
  show ?case by simp
next
  case (Cons t ts)
  show ?case
  proof (cases "sweep_yMin v e t < y")
    case False
    then show ?thesis using Cons.IH [of y] by (simp add: sweep_step_eq)
  next
    case True
    define lo where "lo = sweep_yMin v e t + 1"
    define w where "w = map (\<lambda>y'. (sweep_x v t, sweep_row v e y')) (rev [lo .. y])"
    define rest where "rest = filter (\<lambda>w. w \<noteq> []) (sweep_walks v e ts lo)"
    have le: "lo \<le> y" using True by (simp add: lo_def)
    then have ne: "w \<noteq> []" by (simp add: w_def)
    have "last (rev [lo .. y]) = lo" using le by (rule hd_last_rev_upto)
    then have la: "snd (last w) = sweep_row v e lo"
      using le by (simp add: w_def last_map)
    have first: "rest \<noteq> [] \<Longrightarrow> snd (hd (hd rest)) = sweep_row v e lo"
      unfolding rest_def by (rule sweep_walks_first)
    have "filter (\<lambda>w. w \<noteq> []) (sweep_walks v e (t # ts) y) = w # rest"
      using True ne by (simp add: sweep_step_eq w_def rest_def lo_def)
    moreover have "successively (\<lambda>w w'. snd (hd w') = snd (last w)) (w # rest)"
      unfolding successively_Cons using Cons.IH [of lo] first la
      by (auto simp: rest_def)
    ultimately show ?thesis by simp
  qed
qed

lemma sweep_walks_columns:
  assumes "i < length ts" and "p \<in> set (sweep_walks v e ts y ! i)"
  shows "fst p = sweep_x v (ts ! i)"
  using assms
proof (induction ts arbitrary: y i)
  case Nil
  then show ?case by simp
next
  case (Cons t ts)
  show ?case
  proof (cases i)
    case 0
    then have "p \<in> set (snd (sweep_step v e t y))" using Cons.prems(2) by simp
    then show ?thesis using 0 by (auto simp: sweep_step_eq split: if_splits)
  next
    case (Suc j)
    then have "j < length ts" "p \<in> set (sweep_walks v e ts (fst (sweep_step v e t y)) ! j)"
      using Cons.prems by simp_all
    from Cons.IH [OF this] show ?thesis using Suc by simp
  qed
qed

lemma sweep_pixel_arc:
  "successively (\<lambda>a b. b = a \<or> b = row_beyond e a) (map snd (concat (sweep_pixels v e)))"
proof -
  have "successively (\<lambda>a b. sweep_row v e b = sweep_row v e a
                            \<or> sweep_row v e b = row_beyond e (sweep_row v e a))
          (map snd (sweep_cells v e))"
    using sweep_cells_arc(1) [of v e]
    by (rule successively_weaken) (auto simp: arc_step_def sweep_row_up)
  then show ?thesis
    by (simp add: sweep_pixel_rows successively_map)
qed

lemma sdiv_2_int64: "is_int64 h \<Longrightarrow> h sdiv 2 < 2 ^ 63"
  by (auto simp: is_int64_def signed_divide_int_def sgn_if)

text \<open>
  C5, as the code has it. The loop variable \<open>y\<close> starts at the centre row \<open>h / 2\<close> and
  never increases (\<open>sweep_cells\<close> holds its values). At each of its values the code paints
  one pixel, in row \<open>y\<close> for a success and in the mirrored row \<open>h - y\<close> for a failure, in
  the column of the time step: the painted rows (\<open>sweep_pixels\<close>, one list for each time
  step) are the images of the values of \<open>y\<close>, and the canvas after \<open>Record\<close> is the canvas
  before with these pixels blended in order. Each painted row is the row painted just
  before it or the next row away from the centre line, so the arc is continuous. Within
  one time step every painted row is the next one outward from the row before, and no
  row is painted twice. The first time step that paints starts on the centre row
  (\<open>h / 2\<close> for a success, \<open>h - h / 2\<close> for a failure), and every later time step that
  paints starts by painting again the row on which the painting time step before it
  ended.
\<close>

theorem sweep_arc:
  assumes "is_int64 (sweep_h v)"
  shows
    "sweep_vis (sweep_Record v e) =
       fold (\<lambda>(x, r). sweep_blend v e x r) (concat (sweep_pixels v e)) (sweep_vis v)
     \<and> length (sweep_pixels v e) = length (sweep_times e)
     \<and> (\<forall>i < length (sweep_times e). \<forall>p \<in> set (sweep_pixels v e ! i).
          fst p = sweep_x v (sweep_times e ! i))
     \<and> map snd (concat (sweep_pixels v e)) = map (sweep_row v e) (map snd (sweep_cells v e))
     \<and> sorted_wrt (\<lambda>a b. b \<le> a) (map snd (sweep_cells v e))
     \<and> (sweep_cells v e \<noteq> [] \<longrightarrow> snd (hd (sweep_cells v e)) = sweep_h v sdiv 2)
     \<and> successively (\<lambda>a b. b = a \<or> b = row_beyond e a) (map snd (concat (sweep_pixels v e)))
     \<and> (\<forall>w \<in> set (sweep_pixels v e).
          successively (\<lambda>a b. b = row_beyond e a) (map snd w) \<and> distinct (map snd w))
     \<and> (sweep_painting v e \<noteq> [] \<longrightarrow>
          snd (hd (hd (sweep_painting v e))) = sweep_row v e (sweep_h v sdiv 2))
     \<and> successively (\<lambda>w w'. snd (hd w') = snd (last w)) (sweep_painting v e)"
proof (intro conjI impI ballI allI)
  show "sweep_vis (sweep_Record v e) =
          fold (\<lambda>(x, r). sweep_blend v e x r) (concat (sweep_pixels v e)) (sweep_vis v)"
    by (rule sweep_Record_pixels)
  show "length (sweep_pixels v e) = length (sweep_times e)"
    by (simp add: sweep_pixels_def length_sweep_walks)
  show "fst p = sweep_x v (sweep_times e ! i)"
    if "i < length (sweep_times e)" and "p \<in> set (sweep_pixels v e ! i)" for i p
    using that unfolding sweep_pixels_def by (rule sweep_walks_columns)
  show "map snd (concat (sweep_pixels v e)) = map (sweep_row v e) (map snd (sweep_cells v e))"
    by (rule sweep_pixel_rows)
  show "sorted_wrt (\<lambda>a b. b \<le> a) (map snd (sweep_cells v e))"
    by (rule arc_nonincreasing) (rule sweep_cells_arc(1))
  show "snd (hd (sweep_cells v e)) = sweep_h v sdiv 2" if "sweep_cells v e \<noteq> []"
    using that by (rule sweep_cells_arc(2))
  show "successively (\<lambda>a b. b = a \<or> b = row_beyond e a) (map snd (concat (sweep_pixels v e)))"
    by (rule sweep_pixel_arc)
  show "successively (\<lambda>a b. b = row_beyond e a) (map snd w)" if "w \<in> set (sweep_pixels v e)" for w
    using that unfolding sweep_pixels_def by (rule sweep_walks_rows)
  show "distinct (map snd w)" if "w \<in> set (sweep_pixels v e)" for w
    using sdiv_2_int64 [OF assms] that unfolding sweep_pixels_def by (rule sweep_walks_distinct)
  show "snd (hd (hd (sweep_painting v e))) = sweep_row v e (sweep_h v sdiv 2)"
    if "sweep_painting v e \<noteq> []"
    using that unfolding sweep_painting_def sweep_pixels_def by (rule sweep_walks_first)
  show "successively (\<lambda>w w'. snd (hd w') = snd (last w)) (sweep_painting v e)"
    unfolding sweep_painting_def sweep_pixels_def by (rule sweep_walks_linked)
qed

text \<open>
  A sweep canvas one pixel wide and eight high over the times 0 to 100, one pixel for
  each doubling, and a failure that starts at 0 and runs for 4 seconds. The loop
  variable takes the values 4, 4, 4, 3; the rows painted are 4, 4, 4 and 5, in the time
  steps 2, 3 and 4.
\<close>

lemma NewSweep_1_8: "\<exists>v. NewSweep 1 8 0 100 (Fin 1) 1 0 = Some v"
proof -
  have "grid_ystep 8 (Fin 1) = 8"
    by (simp add: grid_ystep_def f64_of_int_def go_int_def trunc_def is_int64_def)
  then have "NewSweep 1 8 0 100 (Fin 1) 1 0 \<noteq> None"
    by (subst NewSweep_returns_iff) simp_all
  then show ?thesis by blast
qed

lemma sweep_1_8_failure:
  assumes "NewSweep 1 8 0 100 (Fin 1) 1 0 = Some v"
  shows "sweep_pixels v \<lparr>Start = 0, Run = 4, Status = 1\<rparr>
           = [[], [], [(0, 4)], [(0, 4)], [(0, 4), (0, 5)]]"
    and "sweep_cells v \<lparr>Start = 0, Run = 4, Status = 1\<rparr> = [(0, 4), (0, 4), (0, 4), (0, 3)]"
    and "sweep_row v \<lparr>Start = 0, Run = 4, Status = 1\<rparr> (sweep_h v sdiv 2) = 4"
proof -
  define e :: EventDataPoint where "e = \<lparr>Start = 0, Run = 4, Status = 1\<rparr>"
  note f = NewSweep_ok [OF assms]
  have ts: "sweep_times e = [0, 1, 2, 3, 4]" unfolding e_def by code_simp
  have h: "sweep_h v sdiv 2 = 4" by (simp add: f)
  have x: "sweep_x v 2 = 0" "sweep_x v 3 = 0" "sweep_x v 4 = 0"
    unfolding sweep_x_def f by code_simp+
  have i: "int64 4 = 4" "int64 3 = 3" "int64 2 = 2" "int64 5 = 5" by code_simp+
  have t3: "trunc (log 2 3) = 1" using floor_log2_3 by (simp add: trunc_def)
  have l4: "log 2 4 = (2 :: real)" using log2_of_power_eq [of 4 2] by simp
  have g: "go_int (Fin 0) = 0" "go_int (Fin 1) = 1" "go_int (Fin (log 2 3)) = 1"
    "go_int (Fin 2) = 2"
    by (simp_all add: go_int_def t3 is_int64_def) (simp_all add: trunc_def)
  have y: "sweep_yMin v e 0 = 4" "sweep_yMin v e 1 = 4" "sweep_yMin v e 2 = 3"
    "sweep_yMin v e 3 = 3" "sweep_yMin v e 4 = 2"
    by (simp_all add: sweep_yMin_def f e_def f64_of_int_def f64_sub_def g i l4)
  have r: "rev [4 .. 4 :: int] = [4]" "rev [3 .. 4 :: int] = [4, 3]"
    by (simp_all add: upto_rec1)
  have st: "Status e \<noteq> 0" by (simp add: e_def)
  have rw: "sweep_row v e 4 = 4" "sweep_row v e 3 = 5"
    using st by (simp_all add: sweep_row_def f i)
  show "sweep_pixels v \<lparr>Start = 0, Run = 4, Status = 1\<rparr>
           = [[], [], [(0, 4)], [(0, 4)], [(0, 4), (0, 5)]]"
    unfolding e_def [symmetric]
    by (simp add: sweep_pixels_def ts h sweep_step_eq y x r rw)
  show "sweep_cells v \<lparr>Start = 0, Run = 4, Status = 1\<rparr> = [(0, 4), (0, 4), (0, 4), (0, 3)]"
    unfolding e_def [symmetric]
    by (simp add: sweep_cells_def ts h x y walk_cells r)
  show "sweep_row v \<lparr>Start = 0, Run = 4, Status = 1\<rparr> (sweep_h v sdiv 2) = 4"
    unfolding e_def [symmetric] by (simp add: h rw)
qed

theorem sweep_arc_witness:
  "\<exists>v. NewSweep 1 8 0 100 (Fin 1) 1 0 = Some v \<and> is_int64 (sweep_h v) \<and>
       sweep_cells v \<lparr>Start = 0, Run = 4, Status = 1\<rparr> = [(0, 4), (0, 4), (0, 4), (0, 3)] \<and>
       sweep_pixels v \<lparr>Start = 0, Run = 4, Status = 1\<rparr>
         = [[], [], [(0, 4)], [(0, 4)], [(0, 4), (0, 5)]] \<and>
       sweep_painting v \<lparr>Start = 0, Run = 4, Status = 1\<rparr> = [[(0, 4)], [(0, 4)], [(0, 4), (0, 5)]] \<and>
       snd (hd (hd (sweep_painting v \<lparr>Start = 0, Run = 4, Status = 1\<rparr>)))
         = sweep_row v \<lparr>Start = 0, Run = 4, Status = 1\<rparr> (sweep_h v sdiv 2) \<and>
       sweep_row v \<lparr>Start = 0, Run = 4, Status = 1\<rparr> (sweep_h v sdiv 2) = 4 \<and>
       distinct (map snd (sweep_pixels v \<lparr>Start = 0, Run = 4, Status = 1\<rparr> ! 4)) \<and>
       sweep_x v (sweep_times \<lparr>Start = 0, Run = 4, Status = 1\<rparr> ! 4) = 0 \<and>
       sweep_vis (sweep_Record v \<lparr>Start = 0, Run = 4, Status = 1\<rparr>) =
         fold (\<lambda>(x, r). sweep_blend v \<lparr>Start = 0, Run = 4, Status = 1\<rparr> x r)
           [(0, 4), (0, 4), (0, 4), (0, 5)] (sweep_vis v)"
proof -
  obtain v where v: "NewSweep 1 8 0 100 (Fin 1) 1 0 = Some v"
    using NewSweep_1_8 by blast
  define e :: EventDataPoint where "e = \<lparr>Start = 0, Run = 4, Status = 1\<rparr>"
  note p = sweep_1_8_failure [OF v, folded e_def]
  have i: "is_int64 (sweep_h v)" by (simp add: NewSweep_ok(3) [OF v] is_int64_def)
  have ts: "length (sweep_times e) = 5" unfolding e_def by code_simp
  have pa: "sweep_painting v e = [[(0, 4)], [(0, 4)], [(0, 4), (0, 5)]]"
    by (simp add: sweep_painting_def p(1))
  have n4: "sweep_pixels v e ! 4 = [(0, 4), (0, 5)]" by (simp add: p(1))
  note t = sweep_arc [OF i, of e]
  have c: "sweep_vis (sweep_Record v e) =
          fold (\<lambda>(x, r). sweep_blend v e x r) (concat (sweep_pixels v e)) (sweep_vis v)"
    using t by (rule conjunct1)
  have col: "\<forall>i < length (sweep_times e). \<forall>p \<in> set (sweep_pixels v e ! i).
          fst p = sweep_x v (sweep_times e ! i)"
    using t by (elim conjE)
  have fst: "sweep_painting v e \<noteq> [] \<longrightarrow>
          snd (hd (hd (sweep_painting v e))) = sweep_row v e (sweep_h v sdiv 2)"
    using t by (elim conjE)
  have dis: "\<forall>w \<in> set (sweep_pixels v e).
          successively (\<lambda>a b. b = row_beyond e a) (map snd w) \<and> distinct (map snd w)"
    using t by (elim conjE)
  have "(4 :: nat) < length (sweep_times e)" by (simp add: ts)
  moreover have "(0, 5) \<in> set (sweep_pixels v e ! 4)" by (simp add: n4)
  ultimately have "fst (0 :: int, 5 :: int) = sweep_x v (sweep_times e ! 4)"
    using col by blast
  then have c4: "sweep_x v (sweep_times e ! 4) = 0" by simp
  have "sweep_pixels v e ! 4 \<in> set (sweep_pixels v e)"
    by (rule nth_mem) (simp add: p(1))
  then have d4: "distinct (map snd (sweep_pixels v e ! 4))" using dis by blast
  have f1: "snd (hd (hd (sweep_painting v e))) = sweep_row v e (sweep_h v sdiv 2)"
    using fst pa by simp
  have c': "sweep_vis (sweep_Record v e) =
          fold (\<lambda>(x, r). sweep_blend v e x r) [(0, 4), (0, 4), (0, 4), (0, 5)] (sweep_vis v)"
    using c unfolding p(1) by simp
  have "NewSweep 1 8 0 100 (Fin 1) 1 0 = Some v \<and> is_int64 (sweep_h v) \<and>
       sweep_cells v e = [(0, 4), (0, 4), (0, 4), (0, 3)] \<and>
       sweep_pixels v e = [[], [], [(0, 4)], [(0, 4)], [(0, 4), (0, 5)]] \<and>
       sweep_painting v e = [[(0, 4)], [(0, 4)], [(0, 4), (0, 5)]] \<and>
       snd (hd (hd (sweep_painting v e))) = sweep_row v e (sweep_h v sdiv 2) \<and>
       sweep_row v e (sweep_h v sdiv 2) = 4 \<and>
       distinct (map snd (sweep_pixels v e ! 4)) \<and>
       sweep_x v (sweep_times e ! 4) = 0 \<and>
       sweep_vis (sweep_Record v e) =
         fold (\<lambda>(x, r). sweep_blend v e x r) [(0, 4), (0, 4), (0, 4), (0, 5)] (sweep_vis v)"
    by (intro conjI v i p pa f1 d4 c4 c')
  then show ?thesis unfolding e_def by (rule exI)
qed

text \<open>
  A sweep canvas one pixel wide and two high over the times 0 to 4, and a success that
  starts at 0 and runs for 3 seconds. The time steps 2 and 3 both paint the pixel in
  column 0 of row 1: its red channel goes from 45 to 108 and then to 171.
\<close>

theorem sweep_row_repainted_counterexample:
  "\<exists>v. NewSweep 1 2 0 4 (Fin 1) 1 0 = Some v \<and>
       sweep_pixels v \<lparr>Start = 0, Run = 3, Status = 0\<rparr> = [[], [], [(0, 1)], [(0, 1)]] \<and>
       \<not> distinct (map snd (concat (sweep_pixels v \<lparr>Start = 0, Run = 3, Status = 0\<rparr>))) \<and>
       RGBAAt (sweep_vis v) 0 1 = \<lparr>R = 45, G = 45, B = 45, A = 255\<rparr> \<and>
       RGBAAt (sweep_blend v \<lparr>Start = 0, Run = 3, Status = 0\<rparr> 0 1 (sweep_vis v)) 0 1
         = \<lparr>R = 108, G = 108, B = 255, A = 255\<rparr> \<and>
       RGBAAt (sweep_vis (sweep_Record v \<lparr>Start = 0, Run = 3, Status = 0\<rparr>)) 0 1
         = \<lparr>R = 171, G = 171, B = 255, A = 255\<rparr>"
proof -
  define v where "v = \<lparr>sweep_w = 1, sweep_h = 2,
           sweep_vis = \<lparr>Pix = [45, 45, 45, 255, 45, 45, 45, 255], Stride = 4,
                         Rect = image_Rect 0 0 1 2\<rparr>,
           sweep_tA = Fin 0, sweep_tOmega = Fin 4, sweep_yLog2 = Fin 1,
           sweep_cDelta = Fin 255\<rparr>"
  define s :: EventDataPoint where "s = \<lparr>Start = 0, Run = 3, Status = 0\<rparr>"
  have ts: "sweep_times s = [0, 1, 2, 3]" unfolding s_def by code_simp
  have x: "sweep_x v 2 = 0" "sweep_x v 3 = 0" unfolding v_def by code_simp+
  have t3: "trunc (log 2 3) = 1" using floor_log2_3 by (simp add: trunc_def)
  have g: "go_int (Fin 0) = 0" "go_int (Fin 1) = 1" "go_int (Fin (log 2 3)) = 1"
    by (simp_all add: go_int_def t3 is_int64_def) (simp_all add: trunc_def)
  have i: "int64 1 = 1" "int64 0 = 0" by code_simp+
  have h: "sweep_h v sdiv 2 = 1" by (simp add: v_def)
  have y: "sweep_yMin v s 0 = 1" "sweep_yMin v s 1 = 1" "sweep_yMin v s 2 = 0"
    "sweep_yMin v s 3 = 0"
    by (simp_all add: sweep_yMin_def v_def s_def f64_of_int_def f64_sub_def g i)
  have r: "rev [1 .. 1 :: int] = [1]" by simp
  have rw: "sweep_row v s 1 = 1" by (simp add: sweep_row_def s_def)
  have px: "sweep_pixels v s = [[], [], [(0, 1)], [(0, 1)]]"
    by (simp add: sweep_pixels_def ts h sweep_step_eq y x r rw)
  have p1: "sweep_blend v s 0 1 (sweep_vis v)
            = \<lparr>Pix = [45, 45, 45, 255, 108, 108, 255, 255], Stride = 4,
               Rect = image_Rect 0 0 1 2\<rparr>"
    unfolding v_def s_def by code_simp
  have p2: "sweep_blend v s 0 1 \<lparr>Pix = [45, 45, 45, 255, 108, 108, 255, 255], Stride = 4,
               Rect = image_Rect 0 0 1 2\<rparr>
            = \<lparr>Pix = [45, 45, 45, 255, 171, 171, 255, 255], Stride = 4,
               Rect = image_Rect 0 0 1 2\<rparr>"
    unfolding v_def s_def by code_simp
  have a0: "RGBAAt (sweep_vis v) 0 1 = \<lparr>R = 45, G = 45, B = 45, A = 255\<rparr>"
    unfolding v_def by code_simp
  have a1: "RGBAAt \<lparr>Pix = [45, 45, 45, 255, 108, 108, 255, 255], Stride = 4,
               Rect = image_Rect 0 0 1 2\<rparr> 0 1 = \<lparr>R = 108, G = 108, B = 255, A = 255\<rparr>"
    by code_simp
  have a2: "RGBAAt \<lparr>Pix = [45, 45, 45, 255, 171, 171, 255, 255], Stride = 4,
               Rect = image_Rect 0 0 1 2\<rparr> 0 1 = \<lparr>R = 171, G = 171, B = 255, A = 255\<rparr>"
    by code_simp
  have c: "concat (sweep_pixels v s) = [(0, 1), (0, 1)]" by (simp add: px)
  have rs: "RGBAAt (sweep_vis (sweep_Record v s)) 0 1 = \<lparr>R = 171, G = 171, B = 255, A = 255\<rparr>"
    by (simp only: sweep_Record_pixels c fold.simps id_apply comp_apply prod.case p1 p2 a2)
  have b1: "RGBAAt (sweep_blend v s 0 1 (sweep_vis v)) 0 1 = \<lparr>R = 108, G = 108, B = 255, A = 255\<rparr>"
    by (simp only: p1 a1)
  have nd: "\<not> distinct (map snd (concat (sweep_pixels v s)))" by (simp add: c)
  show ?thesis
    using NewSweep_1_2 px nd a0 b1 rs
    unfolding v_def [symmetric] s_def [symmetric] by simp
qed

section \<open>The wave renderer: active sets and totality\<close>

lemma foldE_total:
  assumes "\<And>a s. a \<in> set as \<Longrightarrow> \<exists>s'. f a s = Inr s'"
  shows "\<exists>s'. foldE f as s = Inr s'"
  using assms
proof (induction as arbitrary: s)
  case Nil
  show ?case by simp
next
  case (Cons a as)
  obtain s1 where s1: "f a s = Inr s1" using Cons.prems [of a s] by auto
  have "\<exists>s'. foldE f as s1 = Inr s'"
    by (rule Cons.IH) (use Cons.prems in auto)
  then show ?case using s1 by simp
qed

lemma index_in_range:
  "k < length xs \<Longrightarrow> index xs (int (length xs) - int k - 1) = Inr (xs ! (length xs - k - 1))"
  by (auto simp: index_def nat_diff_distrib' intro!: arg_cong [where f = "(!) xs"])

lemma wave_pass_step_total:
  "k < length (wave_p v) \<Longrightarrow> \<exists>st'. wave_pass_step plot v e k st = Inr st'"
  by (simp add: wave_pass_step_def index_in_range Let_def)

lemma wave_fail_step_total:
  "k < length (wave_f v) \<Longrightarrow> \<exists>st'. wave_fail_step plot v e k st = Inr st'"
  by (simp add: wave_fail_step_def index_in_range Let_def)

lemma wave_column_total:
  "\<exists>v'. wave_column plot v e = Inr v' \<and> wave_p v' = wave_p v \<and> wave_f v' = wave_f v"
proof -
  define v1 where "v1 = v\<lparr>wave_x := wave_x v + 1\<rparr>"
  have "\<exists>st1. foldE (wave_pass_step plot v1 e) [0 ..< length (wave_p v1)] (0, wave_vis v1)
           = Inr st1"
    by (rule foldE_total, rule wave_pass_step_total) simp
  then obtain st1 where st1:
    "foldE (wave_pass_step plot v1 e) [0 ..< length (wave_p v1)] (0, wave_vis v1) = Inr st1"
    by blast
  have "\<exists>st2. foldE (wave_fail_step plot v1 e) [0 ..< length (wave_f v1)] (0, snd st1)
           = Inr st2"
    by (rule foldE_total, rule wave_fail_step_total) simp
  then obtain st2 where st2:
    "foldE (wave_fail_step plot v1 e) [0 ..< length (wave_f v1)] (0, snd st1) = Inr st2"
    by blast
  have "wave_column plot v e = Inr (v1\<lparr>wave_vis := snd st2\<rparr>)"
    using st1 st2 by (simp add: wave_column_def Let_def v1_def [symmetric])
  then show ?thesis by (simp add: v1_def)
qed

lemma wave_draw_total:
  "\<exists>v'. wave_draw plot e x' v = Inr v' \<and> wave_p v' = wave_p v \<and> wave_f v' = wave_f v"
proof (induction plot e x' v rule: wave_draw.induct)
  case (1 plot e x' v)
  show ?case
  proof (cases "wave_x v < x'")
    case True
    obtain v1 where v1: "wave_column plot v e = Inr v1" "wave_p v1 = wave_p v"
      "wave_f v1 = wave_f v"
      using wave_column_total by blast
    from "1.IH" [OF True v1(1)] obtain v' where
      "wave_draw plot e x' v1 = Inr v'" "wave_p v' = wave_p v1" "wave_f v' = wave_f v1"
      by blast
    then show ?thesis using True v1 by (subst wave_draw.simps) simp
  next
    case False
    then show ?thesis by (subst wave_draw.simps) simp
  qed
qed

lemma wave_Record_sets:
  "\<exists>v'. wave_Record plot v e = Inr v'
     \<and> wave_p v' = wave_p (wave_insert (wave_prune v e) e)
     \<and> wave_f v' = wave_f (wave_insert (wave_prune v e) e)"
  unfolding wave_Record_def Let_def by (rule wave_draw_total)

lemma sint32_add:
  assumes "- (2 ^ 31) \<le> sint a + sint b" and "sint a + sint b < 2 ^ 31"
  shows "sint (a + b :: 32 word) = sint a + sint b"
proof -
  have "sint (a + b) = signed_take_bit 31 (sint a + sint b)"
    by (simp add: sint_word_ariths)
  also have "\<dots> = sint a + sint b"
    by (rule signed_take_bit_int_eq_self) (use assms in simp_all)
  finally show ?thesis .
qed

lemma wave_active_end_time:
  "end_fits p \<Longrightarrow> wave_active e p \<longleftrightarrow> sint (Start e) < end_time p"
  using sint32_add [of "Start p" "Run p"]
  by (simp add: wave_active_def end_fits_def end_time_def)

lemma wave_Record_sets_wrapped:
  "\<exists>v'. wave_Record plot v e = Inr v'
     \<and> wave_p v' = filter (wave_active e) (wave_p v) @ (if Status e = 0 then [e] else [])
     \<and> wave_f v' = filter (wave_active e) (wave_f v) @ (if Status e = 0 then [] else [e])"
proof -
  obtain v' where v': "wave_Record plot v e = Inr v'"
    "wave_p v' = wave_p (wave_insert (wave_prune v e) e)"
    "wave_f v' = wave_f (wave_insert (wave_prune v e) e)"
    using wave_Record_sets by blast
  then show ?thesis by (auto simp: wave_insert_def wave_prune_def)
qed

text \<open>
  C3, as the code has it. The code adds \<open>Start\<close> and \<open>Run\<close> as 32-bit integers. When the
  end time \<open>Start + Run\<close> of every event in the two active sets fits in 32 bits, then after
  \<open>wave.Record(e)\<close> each active set holds exactly its former events whose end time is
  greater than \<open>e.Start\<close>, in their former order, followed by \<open>e\<close> in the passing set when
  \<open>e.Status\<close> is 0 and in the failing set otherwise.
\<close>

theorem wave_Record_active_sets:
  assumes "\<forall>p \<in> set (wave_p v) \<union> set (wave_f v). end_fits p"
  shows "\<exists>v'. wave_Record plot v e = Inr v'
     \<and> wave_p v' = filter (\<lambda>p. sint (Start e) < end_time p) (wave_p v)
                     @ (if Status e = 0 then [e] else [])
     \<and> wave_f v' = filter (\<lambda>f. sint (Start e) < end_time f) (wave_f v)
                     @ (if Status e = 0 then [] else [e])"
proof -
  have p: "filter (wave_active e) (wave_p v) = filter (\<lambda>p. sint (Start e) < end_time p) (wave_p v)"
    by (rule filter_cong) (use assms wave_active_end_time in auto)
  have f: "filter (wave_active e) (wave_f v) = filter (\<lambda>p. sint (Start e) < end_time p) (wave_f v)"
    by (rule filter_cong) (use assms wave_active_end_time in auto)
  show ?thesis using wave_Record_sets_wrapped [of plot v e] unfolding p f .
qed

theorem wave_Record_active_sets_witness:
  "end_fits \<lparr>Start = 0, Run = 10, Status = 0\<rparr> \<and> end_fits \<lparr>Start = 5, Run = 2, Status = 0\<rparr>
   \<and> end_fits \<lparr>Start = 6, Run = 1, Status = 3\<rparr>
   \<and> (\<exists>v'. wave_Record (\<lambda>i x y r g b. i)
          ((NewWave 4 4 0 10)\<lparr>wave_p := [\<lparr>Start = 0, Run = 10, Status = 0\<rparr>,
                                        \<lparr>Start = 5, Run = 2, Status = 0\<rparr>],
                               wave_f := [\<lparr>Start = 6, Run = 1, Status = 3\<rparr>]\<rparr>)
          \<lparr>Start = 7, Run = 1, Status = 1\<rparr> = Inr v'
     \<and> wave_p v' = [\<lparr>Start = 0, Run = 10, Status = 0\<rparr>]
     \<and> wave_f v' = [\<lparr>Start = 7, Run = 1, Status = 1\<rparr>])"
  using wave_Record_active_sets [of
      "(NewWave 4 4 0 10)\<lparr>wave_p := [\<lparr>Start = 0, Run = 10, Status = 0\<rparr>,
                                    \<lparr>Start = 5, Run = 2, Status = 0\<rparr>],
                           wave_f := [\<lparr>Start = 6, Run = 1, Status = 3\<rparr>]\<rparr>"
      "\<lambda>i x y r g b. i" "\<lparr>Start = 7, Run = 1, Status = 1\<rparr>"]
  by (simp add: NewWave_def end_fits_def end_time_def)

text \<open>
  A wave renderer over the times 1700000000 to 1700000100, an event that starts at
  1700000000 and runs for 500000000 seconds, then an event that starts one second later.
  The first event ends long after the second one starts, but the 32-bit sum of its start
  and run time is negative, and the second \<open>Record\<close> call evicts it.
\<close>

theorem wave_Record_overflow_counterexample:
  "\<exists>v1 v2.
     wave_Record (\<lambda>i x y r g b. i) (NewWave 4 4 1700000000 1700000100)
       \<lparr>Start = 1700000000, Run = 500000000, Status = 0\<rparr> = Inr v1
     \<and> wave_p v1 = [\<lparr>Start = 1700000000, Run = 500000000, Status = 0\<rparr>]
     \<and> wave_Record (\<lambda>i x y r g b. i) v1 \<lparr>Start = 1700000001, Run = 1, Status = 0\<rparr> = Inr v2
     \<and> sint (Start \<lparr>Start = 1700000001, Run = 1, Status = 0\<rparr>)
         < end_time \<lparr>Start = 1700000000, Run = 500000000, Status = 0\<rparr>
     \<and> wave_p v2 = [\<lparr>Start = 1700000001, Run = 1, Status = 0\<rparr>]"
proof -
  define p0 :: EventDataPoint where "p0 = \<lparr>Start = 1700000000, Run = 500000000, Status = 0\<rparr>"
  define e0 :: EventDataPoint where "e0 = \<lparr>Start = 1700000001, Run = 1, Status = 0\<rparr>"
  define pl :: plot_fn where "pl = (\<lambda>i x y r g b. i)"
  obtain v1 where v1: "wave_Record pl (NewWave 4 4 1700000000 1700000100) p0 = Inr v1"
    "wave_p v1 = filter (wave_active p0) (wave_p (NewWave 4 4 1700000000 1700000100))
                   @ (if Status p0 = 0 then [p0] else [])"
    using wave_Record_sets_wrapped by blast
  obtain v2 where v2: "wave_Record pl v1 e0 = Inr v2"
    "wave_p v2 = filter (wave_active e0) (wave_p v1) @ (if Status e0 = 0 then [e0] else [])"
    using wave_Record_sets_wrapped by blast
  have a: "wave_p v1 = [p0]" using v1(2) by (simp add: NewWave_def p0_def)
  have "\<not> wave_active e0 p0" by (simp add: wave_active_def e0_def p0_def)
  then have b: "wave_p v2 = [e0]" using v2(2) a by (simp add: e0_def)
  have c: "sint (Start e0) < end_time p0" by (simp add: end_time_def e0_def p0_def)
  show ?thesis using v1(1) v2(1) a b c unfolding p0_def e0_def pl_def by blast
qed

text \<open>
  C8. \<open>wave.Record\<close> returns for every renderer state and every event, whatever the
  start time, run time and status: no slice index leaves its slice and the column loop
  ends. So does any finite sequence of calls, in any order of the events.
\<close>

theorem wave_Record_total:
  "(\<exists>v'. wave_Record plot v e = Inr v') \<and>
   (\<exists>v'. foldE (\<lambda>e v. wave_Record plot v e) es v = Inr v')"
proof
  show "\<exists>v'. wave_Record plot v e = Inr v'" using wave_Record_sets by blast
  show "\<exists>v'. foldE (\<lambda>e v. wave_Record plot v e) es v = Inr v'"
    by (rule foldE_total) (use wave_Record_sets in blast)
qed


theorem wave_Record_total_witness:
  "(\<exists>v'. wave_Record (\<lambda>i x y r g b. i) (NewWave 4 4 0 10)
            \<lparr>Start = 7, Run = - 3, Status = 2\<rparr> = Inr v') \<and>
   (\<exists>v'. foldE (\<lambda>e v. wave_Record (\<lambda>i x y r g b. i) v e)
            [\<lparr>Start = 9, Run = 0, Status = 0\<rparr>, \<lparr>Start = 2, Run = - 1, Status = - 5\<rparr>]
            (NewWave 4 4 0 10) = Inr v')"
  by (rule wave_Record_total)

section \<open>Error-reason classification\<close>

lemma getErrorCode_from_first:
  assumes "i \<le> j" and "j < length fs" and "(fs ! j) r"
    and "\<And>k. i \<le> k \<Longrightarrow> k < j \<Longrightarrow> \<not> (fs ! k) r"
  shows "getErrorCode_from i r fs = word_of_nat (j + 1)"
  using assms
proof (induction i r fs rule: getErrorCode_from.induct)
  case (1 i r fs)
  show ?case
  proof (cases "i = j")
    case True
    then show ?thesis using "1.prems" by (subst getErrorCode_from.simps) simp
  next
    case False
    then have lt: "i < j" using "1.prems"(1) by simp
    then have no: "\<not> (fs ! i) r" using "1.prems"(4) by simp
    have il: "i < length fs" using lt "1.prems"(2) by simp
    have "getErrorCode_from (i + 1) r fs = word_of_nat (j + 1)"
      by (rule "1.IH" [OF il no]) (use lt "1.prems" in auto)
    then show ?thesis using il no by (subst getErrorCode_from.simps) simp
  qed
qed

lemma getErrorCode_from_none:
  assumes "i \<le> length fs" and "\<And>k. i \<le> k \<Longrightarrow> k < length fs \<Longrightarrow> \<not> (fs ! k) r"
  shows "getErrorCode_from i r fs = word_of_nat (length fs + 1)"
  using assms
proof (induction i r fs rule: getErrorCode_from.induct)
  case (1 i r fs)
  show ?case
  proof (cases "i < length fs")
    case True
    then have no: "\<not> (fs ! i) r" using "1.prems"(2) by simp
    have "getErrorCode_from (i + 1) r fs = word_of_nat (length fs + 1)"
      by (rule "1.IH" [OF True no]) (use True "1.prems" in auto)
    then show ?thesis using True no by (subst getErrorCode_from.simps) simp
  next
    case False
    then have "i = length fs" using "1.prems"(1) by simp
    then show ?thesis by (subst getErrorCode_from.simps) simp
  qed
qed

lemma sint_int8_small: "n \<le> 127 \<Longrightarrow> sint (word_of_nat n :: 8 word) = int n"
proof -
  assume n: "n \<le> 127"
  have "sint (word_of_nat n :: 8 word) = signed_take_bit 7 (int n)"
    by (simp add: signed_of_nat)
  also have "\<dots> = int n"
    by (rule signed_take_bit_int_eq_self) (use n in auto)
  finally show ?thesis .
qed

text \<open>
  Below the limit of \<open>int8\<close> the code follows the comment in the function: the result is
  the index of the first matching filter plus one, and one past the last filter when
  none matches; a blank reason yields 1.
\<close>

lemma getErrorCode_small:
  assumes "fs = errorFilters_of conf"
  shows "(\<forall>i. i < length fs \<and> (fs ! i) r \<and> (\<forall>k<i. \<not> (fs ! k) r) \<and> i + 1 \<le> 127 \<longrightarrow>
            sint (getErrorCode r fs) = int i + 1)
       \<and> ((\<forall>k<length fs. \<not> (fs ! k) r) \<and> length fs + 1 \<le> 127 \<longrightarrow>
            sint (getErrorCode r fs) = int (length fs) + 1)
       \<and> (blank_filter r \<longrightarrow> sint (getErrorCode r fs) = 1)"
proof (intro conjI allI impI)
  fix i
  assume a: "i < length fs \<and> (fs ! i) r \<and> (\<forall>k<i. \<not> (fs ! k) r) \<and> i + 1 \<le> 127"
  then have c: "getErrorCode r fs = word_of_nat (i + 1)"
    unfolding getErrorCode_def by (intro getErrorCode_from_first) auto
  show "sint (getErrorCode r fs) = int i + 1"
    using sint_int8_small [of "i + 1"] a c by simp
next
  assume a: "(\<forall>k<length fs. \<not> (fs ! k) r) \<and> length fs + 1 \<le> 127"
  then have c: "getErrorCode r fs = word_of_nat (length fs + 1)"
    unfolding getErrorCode_def by (intro getErrorCode_from_none) auto
  show "sint (getErrorCode r fs) = int (length fs) + 1"
    using sint_int8_small [of "length fs + 1"] a c by simp
next
  assume b: "blank_filter r"
  have "getErrorCode r fs = word_of_nat (0 + 1)"
    unfolding getErrorCode_def
    by (rule getErrorCode_from_first) (use b assms in \<open>auto simp: errorFilters_of_def\<close>)
  then show "sint (getErrorCode r fs) = 1" by simp
qed

lemma getErrorCode_no_match:
  "getErrorCode ''x'' (errorFilters_of (replicate n (\<lambda>s. False))) = word_of_nat (n + 2)"
proof -
  define fs :: "regexp list" where "fs = errorFilters_of (replicate n (\<lambda>s. False))"
  have len: "length fs = n + 1" by (simp add: fs_def errorFilters_of_def)
  have no: "\<not> (fs ! k) ''x''" if "k < length fs" for k
    using that by (cases k) (simp_all add: fs_def errorFilters_of_def blank_filter_def)
  have "getErrorCode ''x'' fs = word_of_nat (length fs + 1)"
    unfolding getErrorCode_def by (rule getErrorCode_from_none) (use no in auto)
  then show ?thesis unfolding fs_def [symmetric] by (simp add: len)
qed

text \<open>
  C7 says that \<open>getErrorCode\<close> returns \<open>len(filters) + 1\<close>, one past the last configured
  matcher, when no filter matches, and so does the comment in the function. The code
  returns \<open>int8(i + 1)\<close>. With the blank matcher and 125 configuration rows, none of them
  matching, the result is 127, one past the last filter. With the blank matcher and 126
  rows it is \<open>int8(128)\<close>, that is \<open>-128\<close> and not 128: a negative status, which the feed
  uses for an event in progress.
\<close>

theorem getErrorCode_wraps_at_127_filters:
  "length (errorFilters_of (replicate 125 (\<lambda>s. False))) = 126
   \<and> sint (getErrorCode ''x'' (errorFilters_of (replicate 125 (\<lambda>s. False)))) = 127
   \<and> length (errorFilters_of (replicate 126 (\<lambda>s. False))) = 127
   \<and> list_all (\<lambda>f. \<not> f ''x'') (errorFilters_of (replicate 126 (\<lambda>s. False)))
   \<and> sint (getErrorCode ''x'' (errorFilters_of (replicate 126 (\<lambda>s. False)))) = - 128"
proof (intro conjI)
  show "length (errorFilters_of (replicate 125 (\<lambda>s. False))) = 126"
    by (simp add: errorFilters_of_def)
  show "length (errorFilters_of (replicate 126 (\<lambda>s. False))) = 127"
    by (simp add: errorFilters_of_def)
  show "sint (getErrorCode ''x'' (errorFilters_of (replicate 125 (\<lambda>s. False)))) = 127"
    by (simp add: getErrorCode_no_match)
  show "sint (getErrorCode ''x'' (errorFilters_of (replicate 126 (\<lambda>s. False)))) = - 128"
    by (simp add: getErrorCode_no_match)
  show "list_all (\<lambda>f. \<not> f ''x'') (errorFilters_of (replicate 126 (\<lambda>s. False)))"
    by (simp add: errorFilters_of_def blank_filter_def list_all_length nth_Cons')
qed

end
